theory Spec2Isabelle
  imports Complex_Main
begin

section \<open>Number model\<close>

text \<open>
  A JavaScript number is modelled by a real, and the arithmetic of doubles by the exact
  arithmetic of the reals: the rounding and the overflow of double operations are not
  modelled. Two things are modelled. First, the operations that leave the finite numbers
  in exact arithmetic: a division by zero, an inverse cosine outside \<open>[-1, 1]\<close> and a
  square root of a negative number give \<open>Inl NonFinite\<close> (JavaScript gives \<^verbatim>\<open>NaN\<close> or
  an infinity there). Second, the store into a \<^verbatim>\<open>Float32Array\<close>, which rounds the number
  to the nearest float32, ties to even (\<open>Math_fround\<close> below, the conversion that
  \<^verbatim>\<open>Math.fround\<close> performs). A buffer is the list of the stored values. The model has no
  infinite values: it says nothing about whether a large number overflows.
\<close>

datatype error = NonFinite | TypeError

type_synonym vec3 = "real \<times> real \<times> real"

definition js_div :: "real \<Rightarrow> real \<Rightarrow> error + real" where
  "js_div a b = (if b = 0 then Inl NonFinite else Inr (a / b))"

definition Math_acos :: "real \<Rightarrow> error + real" where
  "Math_acos x = (if - 1 \<le> x \<and> x \<le> 1 then Inr (arccos x) else Inl NonFinite)"

definition Math_sqrt :: "real \<Rightarrow> error + real" where
  "Math_sqrt x = (if 0 \<le> x then Inr (sqrt x) else Inl NonFinite)"

definition Math_cbrt :: "real \<Rightarrow> real" where
  "Math_cbrt x = root 3 x"

text \<open>The remainder \<^verbatim>\<open>x % m\<close> of JavaScript on numbers: the quotient is truncated
  towards zero. It is used with the constant divisor 50 only.\<close>

definition js_rem :: "real \<Rightarrow> real \<Rightarrow> real" where
  "js_rem x m =
     x - m * real_of_int (if 0 \<le> x / m then \<lfloor>x / m\<rfloor> else \<lceil>x / m\<rceil>)"

text \<open>Sequencing: the continuation runs on a finite number, an error is passed on.\<close>

definition on_finite :: "error + real \<Rightarrow> (real \<Rightarrow> error + vec3) \<Rightarrow> error + vec3" where
  "on_finite r f = (case r of Inl e \<Rightarrow> Inl e | Inr v \<Rightarrow> f v)"

section \<open>Rounding to float32\<close>

text \<open>
  \<open>pow2 e\<close> is \<open>2\<^sup>e\<close> for an integer \<open>e\<close>. A nonzero float32 with exponent \<open>e\<close> (at least
  \<open>-126\<close>, below which the subnormal numbers share the exponent \<open>-126\<close>) is an integer
  multiple of \<open>2\<^sup>e\<^sup>-\<^sup>2\<^sup>3\<close>; the store takes the nearest multiple, and the even one of two
  nearest. \<open>float32 x\<close> says that \<open>x\<close> is a value a \<^verbatim>\<open>Float32Array\<close> can hold.
\<close>

definition pow2 :: "int \<Rightarrow> real" where
  "pow2 e = (if 0 \<le> e then 2 ^ nat e else 1 / 2 ^ nat (- e))"

definition round_ties_even :: "real \<Rightarrow> int" where
  "round_ties_even y =
     (let f = \<lfloor>y\<rfloor>
      in if y - of_int f < 1 / 2 then f
         else if y - of_int f > 1 / 2 then f + 1
         else if even f then f else f + 1)"

definition float32_exponent :: "real \<Rightarrow> int" where
  "float32_exponent x = max \<lfloor>log 2 \<bar>x\<bar>\<rfloor> (- 126)"

definition Math_fround :: "real \<Rightarrow> real" where
  "Math_fround x =
     (if x = 0 then 0
      else (let ulp = pow2 (float32_exponent x - 23)
            in of_int (round_ties_even (x / ulp)) * ulp))"

definition float32 :: "real \<Rightarrow> bool" where
  "float32 x = (Math_fround x = x)"

section \<open>Randomness\<close>

text \<open>
  \<^verbatim>\<open>Math.random()\<close> is the only source of nondeterminism. A run is modelled against the
  sequence \<open>rnd\<close> of the values the calls return, \<open>rnd n\<close> being the value of call
  number \<open>n\<close>; every function that draws takes the number of the next call and returns
  the number after its last draw. The contract of \<^verbatim>\<open>Math.random\<close> is \<open>unit_rng\<close>.
\<close>

type_synonym rng = "nat \<Rightarrow> real"

definition unit_rng :: "rng \<Rightarrow> bool" where
  "unit_rng rnd = (\<forall>k. 0 \<le> rnd k \<and> rnd k < 1)"

definition rnd_const :: "real \<Rightarrow> rng" where
  "rnd_const c k = c"

text \<open>A sequence that cycles through 0, 1/4, 1/2 and 3/4.\<close>

definition rnd_cycle :: rng where
  "rnd_cycle k = real (k mod 4) / 4"

text \<open>\<^verbatim>\<open>const random = (min, max) => Math.random() * (max - min) + min\<close>, as call
  number \<open>n\<close>.\<close>

definition random :: "rng \<Rightarrow> nat \<Rightarrow> real \<Rightarrow> real \<Rightarrow> real" where
  "random rnd n lo hi = rnd n * (hi - lo) + lo"

section \<open>Shape identifiers\<close>

text \<open>The string enum \<^verbatim>\<open>ShapeType\<close>. The argument of the generator is a string, so a
  value outside the enumeration can be passed, as at run time.\<close>

definition Sierpinski :: string where "Sierpinski = ''Sierpinski Triangle''"
definition Mobius :: string where "Mobius = ''Mobius Strip''"
definition Heart :: string where "Heart = ''Cartesian Heart''"
definition Penrose :: string where "Penrose = ''Penrose Structure''"
definition Lorenz :: string where "Lorenz = ''Lorenz Attractor''"
definition Galaxy :: string where "Galaxy = ''Spiral Galaxy''"
definition DNA :: string where "DNA = ''DNA Double Helix''"
definition Sphere :: string where "Sphere = ''Fibonacci Sphere''"
definition Klein :: string where "Klein = ''Klein Bottle''"
definition Trefoil :: string where "Trefoil = ''Trefoil Knot''"
definition Rossler :: string where "Rossler = ''Rossler Attractor''"
definition Clifford :: string where "Clifford = ''Clifford Torus''"
definition Hourglass :: string where "Hourglass = ''Spacetime Hourglass''"
definition Warp :: string where "Warp = ''Warp Tunnel''"
definition Quantum :: string where "Quantum = ''Quantum Cloud''"
definition Flower :: string where "Flower = ''Exotic Flower''"
definition BlackHole :: string where "BlackHole = ''Black Hole Accretion''"
definition Lissajous :: string where "Lissajous = ''Lissajous Curve''"
definition GravityWave :: string where "GravityWave = ''Gravity Wave''"
definition Hypercube :: string where "Hypercube = ''Hypercube Projection''"

definition ShapeType :: "string list" where
  "ShapeType = [Sierpinski, Mobius, Heart, Penrose, Lorenz, Galaxy, DNA, Sphere, Klein,
     Trefoil, Rossler, Clifford, Hourglass, Warp, Quantum, Flower, BlackHole, Lissajous,
     GravityWave, Hypercube]"

lemmas ShapeType_defs = Sierpinski_def Mobius_def Heart_def Penrose_def Lorenz_def
  Galaxy_def DNA_def Sphere_def Klein_def Trefoil_def Rossler_def Clifford_def
  Hourglass_def Warp_def Quantum_def Flower_def BlackHole_def Lissajous_def
  GravityWave_def Hypercube_def

section \<open>The cases of the switch in generateParticles\<close>

text \<open>Each case is a function of \<open>t = i / count\<close>, the index \<open>i\<close>, \<open>count\<close>, the random
  sequence and the number \<open>n\<close> of the next call of \<^verbatim>\<open>Math.random\<close>; it returns the point
  and the number of the next call after it.\<close>

definition sphere_case :: "real \<Rightarrow> nat \<Rightarrow> error + vec3" where
  "sphere_case t i =
     on_finite (Math_acos (1 - 2 * t)) (\<lambda>phi.
       let theta = pi * (1 + sqrt 5) * real i;
           r = 10;
           x = r * sin phi * cos theta;
           y = r * sin phi * sin theta;
           z = r * cos phi
       in Inr (x, y, z))"

text \<open>\<^verbatim>\<open>Vector3.lerp(v, alpha)\<close> of three.js: each component moves by \<open>alpha\<close> of its
  distance to \<open>v\<close>.\<close>

definition lerp :: "vec3 \<Rightarrow> vec3 \<Rightarrow> real \<Rightarrow> vec3" where
  "lerp p v alpha =
     (case p of (px, py, pz) \<Rightarrow> case v of (vx, vy, vz) \<Rightarrow>
        (px + (vx - px) * alpha, py + (vy - py) * alpha, pz + (vz - pz) * alpha))"

definition corners :: "vec3 list" where
  "corners = [(10, 10, 10), (- 10, - 10, 10), (- 10, 10, - 10), (10, - 10, - 10)]"

text \<open>The five steps of the chaos game. An index outside the array reads \<^verbatim>\<open>undefined\<close>,
  on which \<^verbatim>\<open>lerp\<close> throws.\<close>

fun chaos_steps :: "rng \<Rightarrow> nat \<Rightarrow> nat \<Rightarrow> vec3 \<Rightarrow> error + vec3" where
  "chaos_steps rnd n 0 p = Inr p"
| "chaos_steps rnd n (Suc s) p =
     (let k = \<lfloor>rnd n * 4\<rfloor>
      in if 0 \<le> k \<and> k < 4 then chaos_steps rnd (Suc n) s (lerp p (corners ! nat k) 0.5)
         else Inl TypeError)"

definition sierpinski_case :: "rng \<Rightarrow> nat \<Rightarrow> (error + vec3) \<times> nat" where
  "sierpinski_case rnd n =
     (let p = (random rnd n (- 10) 10, random rnd (n + 1) (- 10) 10,
               random rnd (n + 2) (- 10) 10)
      in (chaos_steps rnd (n + 3) 5 p, n + 8))"

definition mobius_case :: "real \<Rightarrow> rng \<Rightarrow> nat \<Rightarrow> (error + vec3) \<times> nat" where
  "mobius_case t rnd n =
     (let u = t * pi * 4;
          v = random rnd n (- 1) 1;
          r = 8 + v * cos (u / 2);
          x = r * cos u;
          y = r * sin u;
          z = v * sin (u / 2) * 4
      in (Inr (x, y, z), n + 1))"

definition heart_case :: "rng \<Rightarrow> nat \<Rightarrow> (error + vec3) \<times> nat" where
  "heart_case rnd n =
     (let phi = random rnd n 0 (pi * 2);
          theta = random rnd (n + 1) 0 pi;
          x = 10 * 16 * (sin theta) ^ 3 * cos phi * 0.1;
          y = 10 * (13 * cos theta - 5 * cos (2 * theta) - 2 * cos (3 * theta)
                - cos (4 * theta)) * 0.1;
          z = 10 * 16 * (sin theta) ^ 3 * sin phi * 0.1
      in (Inr (x, y, z), n + 2))"

text \<open>The integration loop of the Lorenz case: \<open>iter\<close> explicit Euler steps of size
  0.003 with \<open>sigma = 10\<close>, \<open>rho = 28\<close>, \<open>beta = 8/3\<close>, in exact arithmetic (the source
  iterates doubles; their rounding and overflow are not modelled).\<close>

fun lorenz_loop :: "nat \<Rightarrow> vec3 \<Rightarrow> vec3" where
  "lorenz_loop 0 s = s"
| "lorenz_loop (Suc k) (lx, ly, lz) =
     (let sigma = 10; rho = 28; beta = 8 / 3;
          dx = sigma * (ly - lx);
          dy = lx * (rho - lz) - ly;
          dz = lx * ly - beta * lz
      in lorenz_loop k (lx + dx * 0.003, ly + dy * 0.003, lz + dz * 0.003))"

text \<open>In the branch \<open>i mod 100 = 0\<close> three numbers are drawn into \<open>lx\<close>, \<open>ly\<close>, \<open>lz\<close>,
  which are not read again: \<open>x\<close>, \<open>y\<close>, \<open>z\<close> keep their initial value 0. In the other
  branch the placeholder values of \<open>x\<close> and \<open>y\<close> are overwritten after the loop.\<close>

definition lorenz_case :: "nat \<Rightarrow> rng \<Rightarrow> nat \<Rightarrow> (error + vec3) \<times> nat" where
  "lorenz_case i rnd n =
     (let x = 0; y = 0; z = 0
      in if i mod 100 = 0 then
           (let lx = random rnd n (- 10) 10;
                ly = random rnd (n + 1) (- 10) 10;
                lz = random rnd (n + 2) 0 20
            in (Inr (x, y, z), n + 3))
         else
           (let t_val = real i * 0.01;
                px = sin t_val * 10;
                py = cos t_val * 10;
                pz = (0::real);
                angle = real i * 0.1;
                r = real (i mod 1000) / 1000 * 20;
                x = sin angle * r;
                y = cos angle * r;
                iter = 50 + i mod 2000
            in case lorenz_loop iter (1, 1, 1) of
                 (lx', ly', lz') \<Rightarrow> (Inr (lx', ly', lz' - 25), n)))"

definition galaxy_case :: "nat \<Rightarrow> rng \<Rightarrow> nat \<Rightarrow> (error + vec3) \<times> nat" where
  "galaxy_case i rnd n =
     (let arms = 5;
          armAngle = real (i mod arms) * (2 * pi / real arms);
          dist = random rnd n 0 15;
          angle = dist * 0.5 + armAngle;
          randomness = random rnd (n + 1) (- 1) 1;
          x = cos angle * dist + randomness;
          y = sin angle * dist + randomness;
          z = (random rnd (n + 2) (- 1) 1 * dist) * 0.2
      in (Inr (x, y, z), n + 3))"

definition dna_case :: "real \<Rightarrow> nat \<Rightarrow> rng \<Rightarrow> nat \<Rightarrow> (error + vec3) \<times> nat" where
  "dna_case t i rnd n =
     (let turns = 10;
          angle = t * pi * 2 * turns;
          radius = 5;
          height = 30;
          strand = (if i mod 2 = 0 then 1 else - 1);
          x = cos (angle + strand * pi) * radius;
          z = sin (angle + strand * pi) * radius;
          y = (t - 0.5) * height
      in if i mod 10 = 0 then
           (let r = random rnd n (- radius) radius
            in (Inr (cos angle * r, y, sin angle * r), n + 1))
         else (Inr (x, y, z), n))"

definition klein_case :: "real \<Rightarrow> nat \<Rightarrow> error + vec3" where
  "klein_case t i =
     (let u = t * pi * 2;
          v = (real (i mod 100) / 100) * pi * 2;
          r = 4 * (1 - cos u / 2);
          x = (if u < pi then 6 * cos u * (1 + sin u) + r * cos u * cos v
               else 6 * cos u * (1 + sin u) + r * cos (v + pi));
          y = (if u < pi then 16 * sin u + r * sin u * cos v else 16 * sin u);
          z = r * sin v
      in Inr (x * 0.3, y * 0.3, z * 0.3))"

definition trefoil_case :: "real \<Rightarrow> nat \<Rightarrow> rng \<Rightarrow> nat \<Rightarrow> (error + vec3) \<times> nat" where
  "trefoil_case t i rnd n =
     (let u = t * pi * 4;
          v = (real (i mod 50) / 50) * pi * 2;
          kx = sin u + 2 * sin (2 * u);
          ky = cos u - 2 * cos (2 * u);
          kz = - sin (3 * u);
          x = kx * 4 + random rnd n (- 0.5) 0.5;
          y = ky * 4 + random rnd (n + 1) (- 0.5) 0.5;
          z = kz * 4 + random rnd (n + 2) (- 0.5) 0.5
      in (Inr (x, y, z), n + 3))"

text \<open>The integration loop of the Rossler case: explicit Euler steps of size 0.01 with
  \<open>a = 0.2\<close>, \<open>b = 0.2\<close>, \<open>c = 5.7\<close>, in exact arithmetic as well.\<close>

fun rossler_loop :: "nat \<Rightarrow> vec3 \<Rightarrow> vec3" where
  "rossler_loop 0 s = s"
| "rossler_loop (Suc k) (rx, ry, rz) =
     (let a = 0.2; b = 0.2; c = 5.7;
          dx = - ry - rz;
          dy = rx + a * ry;
          dz = b + rz * (rx - c)
      in rossler_loop k (rx + dx * 0.01, ry + dy * 0.01, rz + dz * 0.01))"

definition rossler_case :: "nat \<Rightarrow> error + vec3" where
  "rossler_case i =
     (let steps = 100 + i mod 3000
      in case rossler_loop steps (1, 1, 1) of (rx, ry, rz) \<Rightarrow> Inr (rx, ry, rz - 10))"

definition clifford_case :: "real \<Rightarrow> nat \<Rightarrow> error + vec3" where
  "clifford_case t i =
     (let u = t * pi * 2;
          v = (real (i mod 200) / 200) * pi * 2;
          R = 8; r = 3;
          x = (R + r * cos v) * cos u;
          y = (R + r * cos v) * sin u;
          z = r * sin v
      in Inr (x, y, z))"

definition hourglass_case :: "real \<Rightarrow> nat \<Rightarrow> error + vec3" where
  "hourglass_case t i =
     (let u = t * pi * 4;
          h = (real (i mod 100) / 100) * 2 - 1;
          r = h ^ 2 * 10 + 1;
          x = r * cos u;
          z = r * sin u;
          y = h * 15
      in Inr (x, y, z))"

definition warp_case :: "real \<Rightarrow> nat \<Rightarrow> error + vec3" where
  "warp_case t i =
     (let depth = js_rem (t * 50) 50;
          angle = real i * 0.5;
          r = 5 + sin (depth * 0.5) * 2;
          x = cos angle * r;
          y = sin angle * r;
          z = 25 - depth
      in Inr (x, y, z))"

definition quantum_case :: "rng \<Rightarrow> nat \<Rightarrow> (error + vec3) \<times> nat" where
  "quantum_case rnd n =
     (let u = random rnd n 0 1;
          v = random rnd (n + 1) 0 1;
          theta = 2 * pi * u
      in (on_finite (Math_acos (2 * v - 1)) (\<lambda>phi.
            let r = Math_cbrt (random rnd (n + 2) 0 1) * 10;
                orbital = \<bar>cos theta * sin phi\<bar> * 5;
                x = (r + orbital) * sin phi * cos theta;
                y = (r + orbital) * sin phi * sin theta;
                z = (r + orbital) * cos phi
            in Inr (x, y, z)), n + 3))"

definition flower_case :: "real \<Rightarrow> nat \<Rightarrow> error + vec3" where
  "flower_case t i =
     (let u = t * pi * 20;
          v = real (i mod 50) / 50;
          r = 5 + cos (u * 5) * 5;
          x = r * cos u * v * 2;
          y = (sin (u * 5) * 5) * (1 - v);
          z = r * sin u * v * 2
      in Inr (x, y, z))"

definition blackhole_case :: "real \<Rightarrow> rng \<Rightarrow> nat \<Rightarrow> (error + vec3) \<times> nat" where
  "blackhole_case t rnd n =
     (let dist = 3 + random rnd n 0 15
      in (on_finite (js_div 10 dist) (\<lambda>q.
            let angle = t * pi * 20 + q;
                x = cos angle * dist;
                z = sin angle * dist
            in on_finite (js_div (random rnd (n + 1) (- 1) 1 * 0.5) (dist * 0.5)) (\<lambda>y.
                 Inr (x, if dist < 4 then y * 2 else y, z))), n + 2))"

definition lissajous_case :: "real \<Rightarrow> error + vec3" where
  "lissajous_case t =
     (let A = 10; B = 10; C = 10;
          a = 3; b = 2; c = 4;
          delta = pi / 2;
          angle = t * pi * 20;
          x = A * sin (a * angle + delta);
          y = B * sin (b * angle);
          z = C * sin (c * angle)
      in Inr (x, y, z))"

definition gravitywave_case :: "real \<Rightarrow> rng \<Rightarrow> nat \<Rightarrow> (error + vec3) \<times> nat" where
  "gravitywave_case t rnd n =
     (let size = 30;
          x = random rnd n (- size) size;
          z = random rnd (n + 1) (- size) size
      in (on_finite (Math_sqrt (x * x + z * z)) (\<lambda>d.
            let y = sin (d * 0.5 - t * 0) * 5 * exp (- d * 0.05)
            in Inr (x, y, z)), n + 2))"

definition hypercube_case :: "nat \<Rightarrow> nat \<Rightarrow> rng \<Rightarrow> nat \<Rightarrow> (error + vec3) \<times> nat" where
  "hypercube_case i count rnd n =
     (let size = 10;
          inner = (real i < real count / 2);
          x = (if inner then (if random rnd n (- 1) 1 > 0 then size / 2 else - size / 2)
               else (if random rnd n (- 1) 1 > 0 then size else - size));
          y = (if inner then (if random rnd (n + 1) (- 1) 1 > 0 then size / 2 else - size / 2)
               else (if random rnd (n + 1) (- 1) 1 > 0 then size else - size));
          z = (if inner then (if random rnd (n + 2) (- 1) 1 > 0 then size / 2 else - size / 2)
               else (if random rnd (n + 2) (- 1) 1 > 0 then size else - size))
      in if rnd (n + 3) > 0.8 then (Inr (random rnd (n + 4) (- size) size, y, z), n + 5)
         else (Inr (x, y, z), n + 4))"

definition penrose_case :: "nat \<Rightarrow> rng \<Rightarrow> nat \<Rightarrow> (error + vec3) \<times> nat" where
  "penrose_case i rnd n =
     (let part = i mod 3;
          pos = random rnd n (- 10) 10;
          p = (if part = 0 then ((if \<bar>pos\<bar> > 10 then 0 else pos), - 10, 0)
               else if part = 1 then
                 (10 - (pos + 10) / 2, - 10 + (pos + 10) * sqrt 3 / 2, (pos + 10) / 2)
               else
                 (- 10 + (pos + 10) / 2, - 10 + (pos + 10) * sqrt 3 / 2, - (pos + 10) / 2))
      in case p of (x, y, z) \<Rightarrow> (Inr (x * 0.8, y * 0.8, z * 0.8), n + 1))"

definition default_case :: "rng \<Rightarrow> nat \<Rightarrow> (error + vec3) \<times> nat" where
  "default_case rnd n =
     (Inr (random rnd n (- 10) 10, random rnd (n + 1) (- 10) 10,
           random rnd (n + 2) (- 10) 10), n + 3)"

section \<open>generateParticles\<close>

text \<open>The switch over the shape, in the order of the source; \<open>t\<close> is \<open>i / count\<close>.\<close>

definition switch_shape ::
  "string \<Rightarrow> real \<Rightarrow> nat \<Rightarrow> nat \<Rightarrow> rng \<Rightarrow> nat \<Rightarrow> (error + vec3) \<times> nat" where
  "switch_shape shape t i count rnd n =
     (if shape = Sphere then (sphere_case t i, n)
      else if shape = Sierpinski then sierpinski_case rnd n
      else if shape = Mobius then mobius_case t rnd n
      else if shape = Heart then heart_case rnd n
      else if shape = Lorenz then lorenz_case i rnd n
      else if shape = Galaxy then galaxy_case i rnd n
      else if shape = DNA then dna_case t i rnd n
      else if shape = Klein then (klein_case t i, n)
      else if shape = Trefoil then trefoil_case t i rnd n
      else if shape = Rossler then (rossler_case i, n)
      else if shape = Clifford then (clifford_case t i, n)
      else if shape = Hourglass then (hourglass_case t i, n)
      else if shape = Warp then (warp_case t i, n)
      else if shape = Quantum then quantum_case rnd n
      else if shape = Flower then (flower_case t i, n)
      else if shape = BlackHole then blackhole_case t rnd n
      else if shape = Lissajous then (lissajous_case t, n)
      else if shape = GravityWave then gravitywave_case t rnd n
      else if shape = Hypercube then hypercube_case i count rnd n
      else if shape = Penrose then penrose_case i rnd n
      else default_case rnd n)"

text \<open>The body of the loop for index \<open>i\<close>: \<^verbatim>\<open>const t = i / count\<close>, then the switch.\<close>

definition particle :: "string \<Rightarrow> nat \<Rightarrow> rng \<Rightarrow> nat \<Rightarrow> nat \<Rightarrow> (error + vec3) \<times> nat" where
  "particle shape count rnd n i =
     (case js_div (real i) (real count) of
        Inl e \<Rightarrow> (Inl e, n)
      | Inr t \<Rightarrow> switch_shape shape t i count rnd n)"

text \<open>The three coordinates of a point as the \<^verbatim>\<open>Float32Array\<close> holds them.\<close>

definition stored :: "vec3 \<Rightarrow> vec3" where
  "stored p = (case p of (x, y, z) \<Rightarrow> (Math_fround x, Math_fround y, Math_fround z))"

text \<open>The loop \<^verbatim>\<open>for (let i = 0; i < count; i++)\<close>, storing the three coordinates of
  point \<open>i\<close> at \<open>3 * i\<close>, \<open>3 * i + 1\<close> and \<open>3 * i + 2\<close>. The model stops at the first
  point whose computation gives the error.\<close>

function fill :: "string \<Rightarrow> nat \<Rightarrow> rng \<Rightarrow> nat \<Rightarrow> nat \<Rightarrow> real list \<Rightarrow> (error + real list) \<times> nat"
  where
  "fill shape count rnd i n positions =
     (if i < count then
        (case particle shape count rnd n i of
           (Inl e, n') \<Rightarrow> (Inl e, n')
         | (Inr (x, y, z), n') \<Rightarrow>
             fill shape count rnd (Suc i) n'
               (positions[i * 3 := Math_fround x, i * 3 + 1 := Math_fround y,
                          i * 3 + 2 := Math_fround z]))
      else (Inr positions, n))"
  by pat_completeness auto
termination
  by (relation "measure (\<lambda>(shape, count, rnd, i, n, positions). count - i)") auto

declare fill.simps [simp del]

definition generateParticles :: "string \<Rightarrow> nat \<Rightarrow> rng \<Rightarrow> nat \<Rightarrow> (error + real list) \<times> nat" where
  "generateParticles shape count rnd n = fill shape count rnd 0 n (replicate (count * 3) 0)"

text \<open>The number of the next call of \<^verbatim>\<open>Math.random\<close> when the loop, started with call
  number \<open>n\<close>, reaches index \<open>i\<close>.\<close>

fun call_number :: "string \<Rightarrow> nat \<Rightarrow> rng \<Rightarrow> nat \<Rightarrow> nat \<Rightarrow> nat" where
  "call_number shape count rnd n 0 = n"
| "call_number shape count rnd n (Suc i) =
     snd (particle shape count rnd (call_number shape count rnd n i) i)"

text \<open>Point \<open>i\<close> of a flat buffer.\<close>

definition point_of :: "real list \<Rightarrow> nat \<Rightarrow> vec3" where
  "point_of buf i = (buf ! (i * 3), buf ! (i * 3 + 1), buf ! (i * 3 + 2))"

section \<open>The attractors as the specification describes them\<close>

text \<open>
  The specification's description of the Lorenz and Rossler points: a trajectory of the
  system is integrated again for every point, with a fixed step, from a fixed seed, for
  a number of steps that is a function of the index. The vector fields take the
  parameters of the systems; \<open>trajectory f h k s\<close> is the state after \<open>k\<close> explicit Euler
  steps of size \<open>h\<close> from \<open>s\<close>. Step sizes, seed, step counts and the final shift of \<open>z\<close>
  are the constants of the source.
\<close>

definition lorenz_field :: "real \<Rightarrow> real \<Rightarrow> real \<Rightarrow> vec3 \<Rightarrow> vec3" where
  "lorenz_field sigma rho beta s =
     (case s of (x, y, z) \<Rightarrow> (sigma * (y - x), x * (rho - z) - y, x * y - beta * z))"

definition rossler_field :: "real \<Rightarrow> real \<Rightarrow> real \<Rightarrow> vec3 \<Rightarrow> vec3" where
  "rossler_field a b c s =
     (case s of (x, y, z) \<Rightarrow> (- y - z, x + a * y, b + z * (x - c)))"

definition euler_step :: "(vec3 \<Rightarrow> vec3) \<Rightarrow> real \<Rightarrow> vec3 \<Rightarrow> vec3" where
  "euler_step f h s =
     (case s of (x, y, z) \<Rightarrow> case f s of (dx, dy, dz) \<Rightarrow>
        (x + h * dx, y + h * dy, z + h * dz))"

definition trajectory :: "(vec3 \<Rightarrow> vec3) \<Rightarrow> real \<Rightarrow> nat \<Rightarrow> vec3 \<Rightarrow> vec3" where
  "trajectory f h k s = (euler_step f h ^^ k) s"

definition lorenz_point :: "nat \<Rightarrow> vec3" where
  "lorenz_point i =
     (case trajectory (lorenz_field 10 28 (8 / 3)) 0.003 (50 + i mod 2000) (1, 1, 1) of
        (x, y, z) \<Rightarrow> (x, y, z - 25))"

definition rossler_point :: "nat \<Rightarrow> vec3" where
  "rossler_point i =
     (case trajectory (rossler_field 0.2 0.2 5.7) 0.01 (100 + i mod 3000) (1, 1, 1) of
        (x, y, z) \<Rightarrow> (x, y, z - 10))"

section \<open>The morph driver of Scene\<close>

text \<open>
  The component \<^verbatim>\<open>Particles\<close> holds two references to arrays, \<^verbatim>\<open>positions\<close> and
  \<^verbatim>\<open>targetPositions\<close> (both \<^verbatim>\<open>null\<close> before the first effect), and the ref \<^verbatim>\<open>pointsRef\<close> to
  the mounted points object, whose position attribute is the array \<^verbatim>\<open>positions\<close>
  (\<^verbatim>\<open>array={positions}\<close>). The frame callback writes into that array in place, and the
  mount effect stores one array under both references, so arrays live in a heap indexed
  by references. Entries of the arrays are finite numbers, which is what
  generateParticles returns; a state whose arrays hold float32 values of magnitude at
  most \<open>b\<close> is \<open>float32_buffers b\<close>. Clock, shader uniforms and rotation are left out.
\<close>

definition PARTICLE_COUNT :: nat where
  "PARTICLE_COUNT = 20000"

definition lerpFactor :: real where
  "lerpFactor = 0.05"

type_synonym ref = nat

record Particles =
  positions :: "ref option"
  targetPositions :: "ref option"
  pointsRef :: bool
  heap :: "ref \<Rightarrow> real list"
  next_ref :: ref
  needsUpdate :: bool

definition empty_heap :: "ref \<Rightarrow> real list" where
  "empty_heap r = []"

text \<open>One iteration of the loop of the frame callback. A read beyond the end of an
  array gives \<^verbatim>\<open>undefined\<close>, the difference is then \<^verbatim>\<open>NaN\<close> and the comparison false.
  The assignment \<^verbatim>\<open>posArray[i] += diff * lerpFactor\<close> stores into a \<^verbatim>\<open>Float32Array\<close>.\<close>

definition lerp_at ::
  "ref \<Rightarrow> ref \<Rightarrow> nat \<Rightarrow> (ref \<Rightarrow> real list) \<times> bool \<Rightarrow> (ref \<Rightarrow> real list) \<times> bool" where
  "lerp_at targetRef posRef i hb =
     (case hb of (h, flag) \<Rightarrow>
        if i < length (h targetRef) \<and> i < length (h posRef) then
          (let diff = h targetRef ! i - h posRef ! i
           in if \<bar>diff\<bar> > 0.001
              then (h(posRef := (h posRef)[i := Math_fround (h posRef ! i + diff * lerpFactor)]),
                    True)
              else (h, flag))
        else (h, flag))"

function lerp_loop ::
  "ref \<Rightarrow> ref \<Rightarrow> nat \<Rightarrow> (ref \<Rightarrow> real list) \<times> bool \<Rightarrow> (ref \<Rightarrow> real list) \<times> bool" where
  "lerp_loop targetRef posRef i hb =
     (if i < PARTICLE_COUNT * 3
      then lerp_loop targetRef posRef (Suc i) (lerp_at targetRef posRef i hb)
      else hb)"
  by pat_completeness auto
termination
  by (relation "measure (\<lambda>(targetRef, posRef, i, hb). PARTICLE_COUNT * 3 - i)") auto

declare lerp_loop.simps [simp del]

text \<open>The callback of \<^verbatim>\<open>useFrame\<close>: one tick.\<close>

definition useFrame :: "Particles \<Rightarrow> Particles" where
  "useFrame s =
     (if \<not> pointsRef s then s
      else case positions s of
        None \<Rightarrow> s
      | Some posRef \<Rightarrow>
          (case targetPositions s of
             None \<Rightarrow> s
           | Some targetRef \<Rightarrow>
               (case lerp_loop targetRef posRef 0 (heap s, False) of
                  (h, flag) \<Rightarrow>
                    s\<lparr>heap := h, needsUpdate := (if flag then True else needsUpdate s)\<rparr>)))"

text \<open>\<^verbatim>\<open>setTargetPositions(newTarget)\<close> with a newly created array: the array gets a
  fresh reference.\<close>

definition setTargetPositions :: "real list \<Rightarrow> Particles \<Rightarrow> Particles" where
  "setTargetPositions newTarget s =
     s\<lparr>heap := (heap s)(next_ref s := newTarget),
       targetPositions := Some (next_ref s),
       next_ref := Suc (next_ref s)\<rparr>"

text \<open>The effect on \<^verbatim>\<open>currentShape\<close>: a new target is generated and stored; the current
  array is not touched.\<close>

definition shape_change_effect ::
  "string \<Rightarrow> rng \<Rightarrow> nat \<Rightarrow> Particles \<Rightarrow> (error + Particles) \<times> nat" where
  "shape_change_effect currentShape rnd n s =
     (case generateParticles currentShape PARTICLE_COUNT rnd n of
        (Inl e, n') \<Rightarrow> (Inl e, n')
      | (Inr newTarget, n') \<Rightarrow> (Inr (setTargetPositions newTarget s), n'))"

text \<open>The buffers a state refers to, the sum of the distances of all components, and
  one tick on the current buffer in closed form.\<close>

definition current :: "Particles \<Rightarrow> real list" where
  "current s = (case positions s of None \<Rightarrow> [] | Some r \<Rightarrow> heap s r)"

definition target :: "Particles \<Rightarrow> real list" where
  "target s = (case targetPositions s of None \<Rightarrow> [] | Some r \<Rightarrow> heap s r)"

definition distance_sum :: "Particles \<Rightarrow> real" where
  "distance_sum s = (\<Sum>i < length (current s). \<bar>target s ! i - current s ! i\<bar>)"

definition lerp_component :: "real \<Rightarrow> real \<Rightarrow> real" where
  "lerp_component t c =
     (if \<bar>t - c\<bar> > 0.001 then Math_fround (c + (t - c) * lerpFactor) else c)"

definition lerp_buffer :: "nat \<Rightarrow> real list \<Rightarrow> real list \<Rightarrow> real list" where
  "lerp_buffer i0 tgt cur =
     map (\<lambda>j. if i0 \<le> j \<and> j < PARTICLE_COUNT * 3 \<and> j < length tgt
               then lerp_component (tgt ! j) (cur ! j) else cur ! j) [0..<length cur]"

text \<open>A mounted component whose current array holds \<open>cur\<close> and whose target array, a
  different one, holds \<open>tgt\<close>.\<close>

definition morph_state :: "real list \<Rightarrow> real list \<Rightarrow> Particles" where
  "morph_state cur tgt =
     \<lparr>positions = Some 0, targetPositions = Some 1, pointsRef = True,
      heap = empty_heap(0 := cur, 1 := tgt), next_ref = 2, needsUpdate = False\<rparr>"

definition float32_buffers :: "real \<Rightarrow> Particles \<Rightarrow> bool" where
  "float32_buffers b s =
     (list_all (\<lambda>v. float32 v \<and> \<bar>v\<bar> \<le> b) (current s) \<and>
      list_all (\<lambda>v. float32 v \<and> \<bar>v\<bar> \<le> b) (target s))"

section \<open>Properties of the rounding\<close>

lemma pow2_powr: "pow2 e = 2 powr (of_int e)"
  by (simp add: pow2_def powr_int)

lemma pow2_pos [simp]: "0 < pow2 e"
  by (simp add: pow2_powr)

lemma abs_pow2 [simp]: "\<bar>pow2 e\<bar> = pow2 e"
  using pow2_pos [of e] by linarith

lemma pow2_neq0 [simp]: "pow2 e \<noteq> 0"
  using pow2_pos [of e] by linarith

lemma pow2_add: "pow2 (a + b) = pow2 a * pow2 b"
  by (simp add: pow2_powr powr_add)

lemma pow2_le_iff [simp]: "pow2 a \<le> pow2 b \<longleftrightarrow> a \<le> b"
  by (simp add: pow2_powr)

lemma pow2_less_iff [simp]: "pow2 a < pow2 b \<longleftrightarrow> a < b"
  by (simp add: pow2_powr)

lemma pow2_nonneg_int: "0 \<le> e \<Longrightarrow> pow2 e = of_int (2 ^ nat e)"
  by (simp add: pow2_def)

lemma pow2_half: "pow2 (e - 1) = pow2 e / 2"
proof -
  have "pow2 e = pow2 (e - 1) * pow2 1" using pow2_add [of "e - 1" 1] by simp
  then show ?thesis by (simp add: pow2_def)
qed

lemma round_ties_even_error: "\<bar>of_int (round_ties_even y) - y\<bar> \<le> 1 / 2"
proof -
  have "of_int \<lfloor>y\<rfloor> \<le> y" "y < of_int \<lfloor>y\<rfloor> + 1" by linarith+
  then show ?thesis by (auto simp: round_ties_even_def Let_def)
qed

lemma round_ties_even_int [simp]: "round_ties_even (of_int n) = n"
  by (simp add: round_ties_even_def)

lemma round_ties_even_le: "y \<le> of_int N \<Longrightarrow> round_ties_even y \<le> N"
proof -
  assume a: "y \<le> of_int N"
  have f: "\<lfloor>y\<rfloor> \<le> N" using a by (simp add: floor_le_iff)
  show ?thesis
  proof (cases "\<lfloor>y\<rfloor> = N")
    case True
    then have "y - of_int \<lfloor>y\<rfloor> \<le> 0" using a by simp
    then show ?thesis using True by (simp add: round_ties_even_def Let_def)
  next
    case False
    then have "\<lfloor>y\<rfloor> + 1 \<le> N" using f by linarith
    then show ?thesis using f by (auto simp: round_ties_even_def Let_def)
  qed
qed

lemma round_ties_even_ge: "of_int N \<le> y \<Longrightarrow> N \<le> round_ties_even y"
proof -
  assume "of_int N \<le> y"
  then have "N \<le> \<lfloor>y\<rfloor>" by (simp add: le_floor_iff)
  then show ?thesis by (auto simp: round_ties_even_def Let_def)
qed

lemma floor_log2:
  assumes "pow2 e \<le> \<bar>x\<bar>" and "\<bar>x\<bar> < pow2 (e + 1)"
  shows "\<lfloor>log 2 \<bar>x\<bar>\<rfloor> = e"
proof -
  have "0 < \<bar>x\<bar>" using assms(1) pow2_pos [of e] by linarith
  then show ?thesis
    using assms floor_log_eq_powr_iff [of "\<bar>x\<bar>" 2 e] by (simp add: pow2_powr)
qed

lemma floor_log2_bounds:
  assumes "x \<noteq> 0"
  shows "pow2 \<lfloor>log 2 \<bar>x\<bar>\<rfloor> \<le> \<bar>x\<bar>" and "\<bar>x\<bar> < pow2 (\<lfloor>log 2 \<bar>x\<bar>\<rfloor> + 1)"
  using assms floor_log_eq_powr_iff [of "\<bar>x\<bar>" 2 "\<lfloor>log 2 \<bar>x\<bar>\<rfloor>"]
  by (simp_all add: pow2_powr)

text \<open>The value stored in the binade of \<open>x\<close>.\<close>

lemma Math_fround_binade:
  assumes "pow2 e \<le> \<bar>x\<bar>" and "\<bar>x\<bar> < pow2 (e + 1)" and "- 126 \<le> e"
  shows "Math_fround x = of_int (round_ties_even (x / pow2 (e - 23))) * pow2 (e - 23)"
proof -
  have "0 < \<bar>x\<bar>" using assms(1) pow2_pos [of e] by linarith
  then have "x \<noteq> 0" by simp
  moreover have "float32_exponent x = e"
    using floor_log2 [OF assms(1,2)] assms(3) by (simp add: float32_exponent_def)
  ultimately show ?thesis by (simp add: Math_fround_def Let_def)
qed

lemma Math_fround_0 [simp]: "Math_fround 0 = 0"
  by (simp add: Math_fround_def)

text \<open>The rounding error is at most half a unit in the last place.\<close>

lemma Math_fround_half_ulp:
  "\<bar>Math_fround x - x\<bar> \<le> pow2 (float32_exponent x - 24)"
proof (cases "x = 0")
  case True
  then show ?thesis using less_imp_le [OF pow2_pos [of "float32_exponent 0 - 24"]] by simp
next
  case False
  define u where "u = pow2 (float32_exponent x - 23)"
  have u: "0 < u" by (simp add: u_def)
  have "Math_fround x - x = (of_int (round_ties_even (x / u)) - x / u) * u"
    using False u by (simp add: Math_fround_def u_def [symmetric] algebra_simps)
  then have "\<bar>Math_fround x - x\<bar> = \<bar>of_int (round_ties_even (x / u)) - x / u\<bar> * u"
    using u by (simp add: abs_mult)
  also have "\<dots> \<le> 1 / 2 * u"
    using round_ties_even_error [of "x / u"] u by (intro mult_right_mono) simp_all
  also have "\<dots> = pow2 (float32_exponent x - 24)"
    using pow2_half [of "float32_exponent x - 23"] by (simp add: u_def)
  finally show ?thesis .
qed

lemma float32_exponent_le:
  assumes "x \<noteq> 0" and "\<bar>x\<bar> < pow2 k" and "- 125 \<le> k"
  shows "float32_exponent x \<le> k - 1"
proof -
  have "pow2 \<lfloor>log 2 \<bar>x\<bar>\<rfloor> < pow2 k"
    using floor_log2_bounds(1) [OF assms(1)] assms(2) by linarith
  then show ?thesis using assms(3) by (simp add: float32_exponent_def)
qed

text \<open>A number \<open>m * 2 ^ k\<close> with \<open>\<bar>m\<bar> < 2 ^ 24\<close> and \<open>k \<ge> - 149\<close> is a float32.\<close>

lemma Math_fround_exact:
  assumes x: "x = of_int m * pow2 k" and m: "\<bar>m\<bar> < 2 ^ 24" and k: "- 149 \<le> k"
  shows "Math_fround x = x"
proof (cases "x = 0")
  case True
  then show ?thesis by simp
next
  case False
  define e where "e = float32_exponent x"
  have "\<bar>x\<bar> = of_int \<bar>m\<bar> * pow2 k" unfolding x by (simp add: abs_mult)
  also have "\<dots> < 2 ^ 24 * pow2 k"
  proof -
    have "(of_int \<bar>m\<bar> :: real) < of_int (2 ^ 24)" using m by (simp only: of_int_less_iff)
    then show ?thesis by (intro mult_strict_right_mono) simp_all
  qed
  also have "\<dots> = pow2 (24 + k)"
  proof -
    have "pow2 24 = 2 ^ 24" by (simp add: pow2_def)
    then show ?thesis using pow2_add [of 24 k] by simp
  qed
  finally have "\<bar>x\<bar> < pow2 (24 + k)" .
  then have "pow2 \<lfloor>log 2 \<bar>x\<bar>\<rfloor> < pow2 (24 + k)"
    using floor_log2_bounds(1) [OF False] by linarith
  then have "\<lfloor>log 2 \<bar>x\<bar>\<rfloor> \<le> 23 + k" by simp
  then have j: "0 \<le> k - e + 23" using k by (simp add: e_def float32_exponent_def)
  have "pow2 k = pow2 (k - e + 23) * pow2 (e - 23)"
    using pow2_add [of "k - e + 23" "e - 23"] by simp
  then have "x / pow2 (e - 23) = of_int m * pow2 (k - e + 23)"
    unfolding x by simp
  also have "\<dots> = of_int (m * 2 ^ nat (k - e + 23))"
    by (simp add: pow2_nonneg_int [OF j])
  finally have r: "round_ties_even (x / pow2 (e - 23)) = m * 2 ^ nat (k - e + 23)"
    by (simp only: round_ties_even_int)
  have "Math_fround x = of_int (m * 2 ^ nat (k - e + 23)) * pow2 (e - 23)"
    using False by (simp add: Math_fround_def e_def [symmetric] r)
  also have "\<dots> = of_int m * (pow2 (k - e + 23) * pow2 (e - 23))"
    by (simp add: pow2_nonneg_int [OF j])
  also have "\<dots> = x"
    unfolding x using pow2_add [of "k - e + 23" "e - 23"] by simp
  finally show ?thesis .
qed

text \<open>Below a power of two the error is at most half the unit of the binade below.\<close>

lemma Math_fround_error:
  assumes "\<bar>x\<bar> \<le> pow2 k" and "- 125 \<le> k"
  shows "\<bar>Math_fround x - x\<bar> \<le> pow2 (k - 25)"
proof -
  have z: "0 \<le> pow2 (k - 25)" by (rule less_imp_le [OF pow2_pos])
  consider "x = 0" | "\<bar>x\<bar> = pow2 k" | "x \<noteq> 0" "\<bar>x\<bar> < pow2 k"
    using assms(1) by linarith
  then show ?thesis
  proof cases
    case 1
    then show ?thesis using z by simp
  next
    case 2
    then consider "x = of_int 1 * pow2 k" | "x = of_int (- 1) * pow2 k"
      by (auto simp: abs_if split: if_splits)
    then have "Math_fround x = x"
    proof cases
      case 1
      show ?thesis by (rule Math_fround_exact [OF 1]) (use assms(2) in simp_all)
    next
      case 2
      show ?thesis by (rule Math_fround_exact [OF 2]) (use assms(2) in simp_all)
    qed
    then show ?thesis using z by simp
  next
    case 3
    have "float32_exponent x - 24 \<le> k - 25"
      using float32_exponent_le [OF 3 assms(2)] by simp
    then have "pow2 (float32_exponent x - 24) \<le> pow2 (k - 25)" by simp
    then show ?thesis using Math_fround_half_ulp [of x] by linarith
  qed
qed

text \<open>The relative form of the error bound.\<close>

lemma Math_fround_relative_error:
  "\<bar>Math_fround x - x\<bar> \<le> \<bar>x\<bar> / 2 ^ 24 + pow2 (- 150)"
proof (cases "x = 0")
  case True
  then show ?thesis using less_imp_le [OF pow2_pos [of "- 150"]] by simp
next
  case False
  define l where "l = \<lfloor>log 2 \<bar>x\<bar>\<rfloor>"
  have b: "pow2 l \<le> \<bar>x\<bar>" unfolding l_def by (rule floor_log2_bounds(1) [OF False])
  have "pow2 (float32_exponent x - 24) \<le> \<bar>x\<bar> / 2 ^ 24 + pow2 (- 150)"
  proof (cases "- 126 \<le> l")
    case True
    then have "float32_exponent x = l" by (simp add: float32_exponent_def l_def)
    moreover have "pow2 (l - 24) = pow2 l / 2 ^ 24"
      using pow2_add [of l "- 24"] by (simp add: pow2_def)
    ultimately show ?thesis
      using b less_imp_le [OF pow2_pos [of "- 150"]] by (simp add: divide_right_mono add_increasing2)
  next
    case False
    then have "float32_exponent x = - 126" by (simp add: float32_exponent_def l_def)
    then show ?thesis by simp
  qed
  then show ?thesis using Math_fround_half_ulp [of x] by linarith
qed

text \<open>Every stored value is an integer times a power of two.\<close>

lemma Math_fround_dyadic: "\<exists>m k. Math_fround x = of_int m * pow2 k"
proof (cases "x = 0")
  case True
  then show ?thesis by (simp add: exI [of _ 0])
next
  case False
  then show ?thesis by (auto simp: Math_fround_def Let_def)
qed

lemma float32_dyadic: "float32 x \<Longrightarrow> \<exists>m k. x = of_int m * pow2 k"
  using Math_fround_dyadic [of x] by (simp add: float32_def)

lemma float32_exact:
  "\<bar>m\<bar> < 2 ^ 24 \<Longrightarrow> - 149 \<le> k \<Longrightarrow> float32 (of_int m * pow2 k)"
  unfolding float32_def by (rule Math_fround_exact [OF refl])

lemma Math_fround_int: "\<bar>m\<bar> < 2 ^ 24 \<Longrightarrow> Math_fround (of_int m) = of_int m"
  using Math_fround_exact [of "of_int m" m 0] by (simp add: pow2_def)

lemma Math_fround_numeral [simp]:
  "numeral w < (2 ^ 24 :: int) \<Longrightarrow> Math_fround (numeral w) = numeral w"
  "numeral w < (2 ^ 24 :: int) \<Longrightarrow> Math_fround (- numeral w) = - numeral w"
  using Math_fround_int [of "numeral w"] Math_fround_int [of "- numeral w"] by simp_all

lemma Math_fround_1 [simp]: "Math_fround 1 = 1"
  using Math_fround_int [of 1] by simp

lemma not_5_dvd_power_2: "\<not> (5::int) dvd 2 ^ n"
proof (induction n)
  case 0
  show ?case by simp
next
  case (Suc n)
  have "\<not> (5::int) dvd x \<Longrightarrow> \<not> 5 dvd 2 * x" for x by presburger
  then show ?case using Suc by simp
qed

text \<open>A multiple of a power of two is never 1/1000.\<close>

lemma dyadic_not_thousandth: "\<bar>of_int M * pow2 j\<bar> \<noteq> 1 / 1000"
proof
  assume a: "\<bar>of_int M * pow2 j\<bar> = 1 / 1000"
  then have e: "1000 * (of_int \<bar>M\<bar> * pow2 j) = 1" by (simp add: abs_mult)
  show False
  proof (cases "0 \<le> j")
    case True
    then have "of_int (1000 * \<bar>M\<bar> * 2 ^ nat j) = (1::real)" using e by (simp add: pow2_def)
    then have "1000 * \<bar>M\<bar> * 2 ^ nat j = 1" by (simp only: of_int_eq_1_iff)
    then have a: "1000 * (\<bar>M\<bar> * 2 ^ nat j) = 1" by (simp only: mult.assoc)
    have "(1000::int) dvd 1000 * (\<bar>M\<bar> * 2 ^ nat j)" by (rule dvd_triv_left)
    then have "(1000::int) dvd 1" unfolding a .
    then show False by simp
  next
    case False
    then have "1000 * of_int \<bar>M\<bar> = (2::real) ^ nat (- j)"
      using e by (simp add: pow2_def field_simps)
    then have "of_int (1000 * \<bar>M\<bar>) = (of_int (2 ^ nat (- j)) :: real)" by simp
    then have a: "1000 * \<bar>M\<bar> = 2 ^ nat (- j)" by (simp only: of_int_eq_iff)
    have "(5::int) dvd 5 * (200 * \<bar>M\<bar>)" by (rule dvd_triv_left)
    moreover have "5 * (200 * \<bar>M\<bar>) = 1000 * \<bar>M\<bar>" by simp
    ultimately have "(5::int) dvd 2 ^ nat (- j)" unfolding a [symmetric] by (simp only:)
    then show False using not_5_dvd_power_2 by blast
  qed
qed

lemma dyadic_diff:
  "\<exists>M j. of_int m * pow2 k - of_int n * pow2 l = of_int M * pow2 j"
proof (cases "k \<le> l")
  case True
  have "pow2 l = pow2 (l - k) * pow2 k" using pow2_add [of "l - k" k] by simp
  also have "pow2 (l - k) = of_int (2 ^ nat (l - k))" using True by (simp add: pow2_nonneg_int)
  finally have "of_int m * pow2 k - of_int n * pow2 l
      = of_int (m - n * 2 ^ nat (l - k)) * pow2 k"
    by (simp add: algebra_simps)
  then show ?thesis by blast
next
  case False
  have "pow2 k = pow2 (k - l) * pow2 l" using pow2_add [of "k - l" l] by simp
  also have "pow2 (k - l) = of_int (2 ^ nat (k - l))" using False by (simp add: pow2_nonneg_int)
  finally have "of_int m * pow2 k - of_int n * pow2 l
      = of_int (m * 2 ^ nat (k - l) - n) * pow2 l"
    by (simp add: algebra_simps)
  then show ?thesis by blast
qed

lemma float32_distance_not_threshold:
  assumes "\<exists>m k. t = of_int m * pow2 k" and "\<exists>m k. c = of_int m * pow2 k"
  shows "\<bar>t - c\<bar> \<noteq> 0.001"
proof -
  obtain m k n l where "t = of_int m * pow2 k" "c = of_int n * pow2 l" using assms by blast
  then obtain M j where "t - c = of_int M * pow2 j" using dyadic_diff [of m k n l] by auto
  then show ?thesis using dyadic_not_thousandth [of M j] by simp
qed

text \<open>Rounding keeps a number within \<open>[-10, 10]\<close>.\<close>

lemma Math_fround_within_10:
  assumes "- 10 \<le> x" and "x \<le> 10"
  shows "- 10 \<le> Math_fround x \<and> Math_fround x \<le> 10"
proof (cases "\<bar>x\<bar> < 8")
  case True
  then have "\<bar>x\<bar> \<le> pow2 3" by (simp add: pow2_def)
  then have "\<bar>Math_fround x - x\<bar> \<le> pow2 (- 22)" using Math_fround_error [of x 3] by simp
  then have "\<bar>Math_fround x - x\<bar> \<le> 1" by (simp add: pow2_def)
  then show ?thesis using True by linarith
next
  case False
  then have b: "pow2 3 \<le> \<bar>x\<bar>" "\<bar>x\<bar> < pow2 (3 + 1)" using assms by (simp_all add: pow2_def)
  have f: "Math_fround x = of_int (round_ties_even (x / pow2 (- 20))) * pow2 (- 20)"
    using Math_fround_binade [OF b] by simp
  have p: "pow2 (- 20) = 1 / 2 ^ 20" by (simp add: pow2_def)
  have "x / pow2 (- 20) \<le> of_int (10 * 2 ^ 20)" using assms(2) by (simp add: p)
  then have u: "round_ties_even (x / pow2 (- 20)) \<le> 10 * 2 ^ 20" by (rule round_ties_even_le)
  have "of_int (- 10 * 2 ^ 20) \<le> x / pow2 (- 20)" using assms(1) by (simp add: p)
  then have l: "- 10 * 2 ^ 20 \<le> round_ties_even (x / pow2 (- 20))" by (rule round_ties_even_ge)
  have "(of_int (round_ties_even (x / pow2 (- 20))) :: real) \<le> of_int (10 * 2 ^ 20)"
    using u by (simp only: of_int_le_iff)
  moreover have "(of_int (- 10 * 2 ^ 20) :: real) \<le> of_int (round_ties_even (x / pow2 (- 20)))"
    using l by (simp only: of_int_le_iff)
  ultimately show ?thesis unfolding f p by (simp add: field_simps)
qed

section \<open>Properties of the loop\<close>

lemma call_number_Suc:
  "particle shape count rnd (call_number shape count rnd n i) i = (r, m') \<Longrightarrow>
     call_number shape count rnd n (Suc i) = m'"
  by simp

declare call_number.simps(2) [simp del]

lemma fill_inv:
  "m = call_number shape count rnd n i \<Longrightarrow> i \<le> count \<Longrightarrow>
   fill shape count rnd i m ps = (Inr buf, n') \<Longrightarrow>
     length buf = length ps \<and> (\<forall>k < i * 3. buf ! k = ps ! k) \<and>
     n' = call_number shape count rnd n count \<and>
     (count * 3 \<le> length ps \<longrightarrow>
        (\<forall>j. i \<le> j \<and> j < count \<longrightarrow>
           (\<exists>v. particle shape count rnd (call_number shape count rnd n j) j
                  = (Inr v, call_number shape count rnd n (Suc j))
                \<and> point_of buf j = stored v)))"
proof (induction shape count rnd i m ps rule: fill.induct)
  case (1 shape count rnd i m ps)
  note m = "1.prems"(1) and ic = "1.prems"(2) and run = "1.prems"(3)
  show ?case
  proof (cases "i < count")
    case False
    then have "i = count" using ic by simp
    moreover have "fill shape count rnd i m ps = (Inr ps, m)"
      using False by (simp add: fill.simps [of shape count rnd i])
    ultimately show ?thesis using run m by auto
  next
    case True
    obtain r m' where pm: "particle shape count rnd m i = (r, m')"
      by (cases "particle shape count rnd m i")
    have m': "call_number shape count rnd n (Suc i) = m'"
      using pm unfolding m by (rule call_number_Suc)
    show ?thesis
    proof (cases r)
      case (Inl e)
      with run True pm show ?thesis by (simp add: fill.simps [of shape count rnd i])
    next
      case (Inr v)
      obtain x y z where v: "v = (x, y, z)" by (cases v)
      let ?ps = "ps[i * 3 := Math_fround x, i * 3 + 1 := Math_fround y,
                    i * 3 + 2 := Math_fround z]"
      have rec: "fill shape count rnd (Suc i) m' ?ps = (Inr buf, n')"
        using run True pm Inr v by (simp add: fill.simps [of shape count rnd i])
      have ih: "length buf = length ?ps \<and> (\<forall>k < Suc i * 3. buf ! k = ?ps ! k) \<and>
         n' = call_number shape count rnd n count \<and>
         (count * 3 \<le> length ?ps \<longrightarrow>
            (\<forall>j. Suc i \<le> j \<and> j < count \<longrightarrow>
               (\<exists>v. particle shape count rnd (call_number shape count rnd n j) j
                      = (Inr v, call_number shape count rnd n (Suc j))
                    \<and> point_of buf j = stored v)))"
        by (rule "1.IH" [OF True pm [symmetric] Inr v [symmetric] refl m' [symmetric]
              Suc_leI [OF True] rec])
      have len: "length buf = length ps" using ih by simp
      have old: "\<forall>k < i * 3. buf ! k = ps ! k"
      proof (intro allI impI)
        fix k assume k: "k < i * 3"
        then have "buf ! k = ?ps ! k" using ih by simp
        also have "\<dots> = ps ! k" using k by simp
        finally show "buf ! k = ps ! k" .
      qed
      have new: "count * 3 \<le> length ps \<longrightarrow>
            (\<forall>j. i \<le> j \<and> j < count \<longrightarrow>
               (\<exists>v. particle shape count rnd (call_number shape count rnd n j) j
                      = (Inr v, call_number shape count rnd n (Suc j))
                    \<and> point_of buf j = stored v))"
      proof (intro allI impI)
        fix j assume L: "count * 3 \<le> length ps" and j: "i \<le> j \<and> j < count"
        show "\<exists>v. particle shape count rnd (call_number shape count rnd n j) j
                      = (Inr v, call_number shape count rnd n (Suc j))
                    \<and> point_of buf j = stored v"
        proof (cases "j = i")
          case False
          with j L ih show ?thesis by simp
        next
          case jt: True
          have i3: "i * 3 + 2 < length ps" using True L by simp
          have "buf ! (i * 3) = ?ps ! (i * 3)" "buf ! (i * 3 + 1) = ?ps ! (i * 3 + 1)"
            "buf ! (i * 3 + 2) = ?ps ! (i * 3 + 2)" using ih by simp_all
          then have "point_of buf i = stored (x, y, z)"
            using i3 by (simp add: point_of_def stored_def)
          moreover have "particle shape count rnd (call_number shape count rnd n i) i
              = (Inr (x, y, z), call_number shape count rnd n (Suc i))"
            using pm Inr v m m' by simp
          ultimately show ?thesis unfolding jt by blast
        qed
      qed
      have fin: "n' = call_number shape count rnd n count" using ih by simp
      show ?thesis using len old new fin by (intro conjI)
    qed
  qed
qed

lemma fill_total:
  assumes "\<And>i n. i < count \<Longrightarrow> \<not> isl (fst (particle shape count rnd n i))"
  shows "\<not> isl (fst (fill shape count rnd i n ps))"
  using assms
proof (induction shape count rnd i n ps rule: fill.induct)
  case (1 shape count rnd i n ps)
  show ?case
  proof (cases "i < count")
    case False
    then show ?thesis by (simp add: fill.simps)
  next
    case True
    obtain r m where pm: "particle shape count rnd n i = (r, m)"
      by (cases "particle shape count rnd n i")
    with "1.prems" [OF True, of n] obtain v where r: "r = Inr v" by (cases r) simp_all
    obtain x y z where v: "v = (x, y, z)" by (cases v)
    have "\<not> isl (fst (fill shape count rnd (Suc i) m
            (ps[i * 3 := Math_fround x, i * 3 + 1 := Math_fround y,
                i * 3 + 2 := Math_fround z])))"
      using "1.IH" [OF True pm [symmetric] r, of x "(y, z)" y z] v "1.prems" by simp
    then show ?thesis using True pm r v by (simp add: fill.simps [of shape count rnd i])
  qed
qed

text \<open>What a run that returns a buffer guarantees: the length, the number of calls of
  \<^verbatim>\<open>Math.random\<close>, and that every point is the stored value of the loop body at its
  index and call number.\<close>

lemma generateParticles_points:
  assumes "generateParticles shape count rnd n = (Inr buf, n')"
  shows "length buf = 3 * count"
    and "n' = call_number shape count rnd n count"
    and "j < count \<Longrightarrow>
      \<exists>v. particle shape count rnd (call_number shape count rnd n j) j
             = (Inr v, call_number shape count rnd n (Suc j))
           \<and> point_of buf j = stored v"
  using fill_inv [of n shape count rnd n 0 "replicate (count * 3) 0" buf n'] assms
  by (simp_all add: generateParticles_def)

lemma generateParticles_total:
  assumes "\<And>i n. i < count \<Longrightarrow> \<not> isl (fst (particle shape count rnd n i))"
  shows "\<exists>buf n'. generateParticles shape count rnd n = (Inr buf, n')"
proof -
  have "\<not> isl (fst (generateParticles shape count rnd n))"
    unfolding generateParticles_def using assms by (rule fill_total)
  then show ?thesis
    by (cases "generateParticles shape count rnd n"; cases "fst (generateParticles shape count rnd n)")
      simp_all
qed

text \<open>Every entry of a buffer is a coordinate of one of its points.\<close>

lemma entry_of_point:
  assumes "k < 3 * count"
  shows "k div 3 < count \<and>
     (case point_of buf (k div 3) of (x, y, z) \<Rightarrow> buf ! k = x \<or> buf ! k = y \<or> buf ! k = z)"
proof -
  have d: "k = k div 3 * 3 + k mod 3" by simp
  have "k mod 3 = 0 \<or> k mod 3 = 1 \<or> k mod 3 = 2" by linarith
  then have "buf ! k = buf ! (k div 3 * 3) \<or> buf ! k = buf ! (k div 3 * 3 + 1)
      \<or> buf ! k = buf ! (k div 3 * 3 + 2)"
    using d by (metis add.right_neutral)
  moreover have "k div 3 < count" using assms by linarith
  ultimately show ?thesis by (simp add: point_of_def)
qed

lemma particle_switch:
  "i < count \<Longrightarrow>
     particle shape count rnd n i = switch_shape shape (real i / real count) i count rnd n"
  by (simp add: particle_def js_div_def)

lemma switch_shape_Sphere: "switch_shape Sphere t i count rnd n = (sphere_case t i, n)"
  by (simp add: switch_shape_def)

lemma switch_shape_Mobius: "switch_shape Mobius t i count rnd n = mobius_case t rnd n"
  by (simp add: switch_shape_def ShapeType_defs)

lemma switch_shape_Lorenz: "switch_shape Lorenz t i count rnd n = lorenz_case i rnd n"
  by (simp add: switch_shape_def ShapeType_defs)

lemma switch_shape_Klein: "switch_shape Klein t i count rnd n = (klein_case t i, n)"
  by (simp add: switch_shape_def ShapeType_defs)

lemma switch_shape_Trefoil: "switch_shape Trefoil t i count rnd n = trefoil_case t i rnd n"
  by (simp add: switch_shape_def ShapeType_defs)

lemma switch_shape_Rossler: "switch_shape Rossler t i count rnd n = (rossler_case i, n)"
  by (simp add: switch_shape_def ShapeType_defs)

lemma switch_shape_Clifford: "switch_shape Clifford t i count rnd n = (clifford_case t i, n)"
  by (simp add: switch_shape_def ShapeType_defs)

lemma switch_shape_Lissajous: "switch_shape Lissajous t i count rnd n = (lissajous_case t, n)"
  by (simp add: switch_shape_def ShapeType_defs)

lemma switch_shape_default:
  "shape \<notin> set ShapeType \<Longrightarrow> switch_shape shape t i count rnd n = default_case rnd n"
  by (simp add: switch_shape_def ShapeType_def)

lemma unit_rng_const: "unit_rng (rnd_const c) = (0 \<le> c \<and> c < 1)"
  by (simp add: unit_rng_def rnd_const_def)

lemma random_bounds:
  assumes u: "unit_rng rnd" and lh: "lo \<le> hi"
  shows "lo \<le> random rnd n lo hi \<and> random rnd n lo hi \<le> hi"
proof -
  have r: "0 \<le> rnd n" "rnd n \<le> 1" using u by (simp_all add: unit_rng_def less_imp_le)
  have "0 \<le> rnd n * (hi - lo)" using r lh by simp
  moreover have "rnd n * (hi - lo) \<le> 1 * (hi - lo)"
    using r lh by (intro mult_right_mono) simp_all
  ultimately show ?thesis by (simp add: random_def)
qed

lemma sphere_case_defined:
  "0 \<le> t \<Longrightarrow> t < 1 \<Longrightarrow> \<not> isl (sphere_case t i)"
  by (simp add: sphere_case_def on_finite_def Math_acos_def Let_def)

lemma single_point_buffer:
  assumes "length buf = 3" and "point_of buf 0 = (x, y, z)"
  shows "buf = [x, y, z]"
proof -
  obtain a b c where abc: "buf = [a, b, c]"
    using assms(1) by (auto simp: eval_nat_numeral length_Suc_conv)
  show ?thesis using assms(2) unfolding abc by (simp add: point_of_def)
qed

section \<open>The default case\<close>

lemma call_number_default:
  assumes "shape \<notin> set ShapeType"
  shows "i \<le> count \<Longrightarrow> call_number shape count rnd n i = n + 3 * i"
proof (induction i)
  case 0
  show ?case by simp
next
  case (Suc i)
  then have i: "i < count" and c: "call_number shape count rnd n i = n + 3 * i" by simp_all
  have "particle shape count rnd (n + 3 * i) i = default_case rnd (n + 3 * i)"
    using i assms by (simp add: particle_switch switch_shape_default)
  then show ?case by (simp add: call_number.simps(2) c default_case_def)
qed

lemma unit_rng_cycle: "unit_rng rnd_cycle"
  by (simp add: unit_rng_def rnd_cycle_def)

text \<open>
  C4. For a shape identifier outside the enumeration the switch takes its default case:
  the generator returns a buffer of length \<open>3 * count\<close> after exactly \<open>3 * count\<close> calls
  of \<^verbatim>\<open>Math.random\<close>; the coordinates of point \<open>i\<close> are the stored values of
  \<^verbatim>\<open>random(-10, 10)\<close> at the calls \<open>3 * i\<close>, \<open>3 * i + 1\<close> and \<open>3 * i + 2\<close> of the run, and
  every entry lies in \<open>[-10, 10]\<close>.
\<close>

theorem generateParticles_unknown_shape:
  assumes "shape \<notin> set ShapeType" and "unit_rng rnd"
  shows "\<exists>buf. generateParticles shape count rnd n = (Inr buf, n + 3 * count)
           \<and> length buf = 3 * count
           \<and> (\<forall>i < count. point_of buf i =
                 stored (random rnd (n + 3 * i) (- 10) 10,
                         random rnd (n + 3 * i + 1) (- 10) 10,
                         random rnd (n + 3 * i + 2) (- 10) 10))
           \<and> (\<forall>e \<in> set buf. - 10 \<le> e \<and> e \<le> 10)"
proof -
  have "\<not> isl (fst (particle shape count rnd m i))" if "i < count" for i m
    using that assms(1) by (simp add: particle_switch switch_shape_default default_case_def)
  then obtain buf n' where g: "generateParticles shape count rnd n = (Inr buf, n')"
    using generateParticles_total [of count shape rnd n] by blast
  have len: "length buf = 3 * count" using generateParticles_points(1) [OF g] .
  have n': "n' = n + 3 * count"
    using generateParticles_points(2) [OF g] call_number_default [OF assms(1), of count count]
    by simp
  have pt: "point_of buf i =
        stored (random rnd (n + 3 * i) (- 10) 10, random rnd (n + 3 * i + 1) (- 10) 10,
                random rnd (n + 3 * i + 2) (- 10) 10)" if i: "i < count" for i
  proof -
    obtain v where v: "particle shape count rnd (call_number shape count rnd n i) i
          = (Inr v, call_number shape count rnd n (Suc i))"
      and p: "point_of buf i = stored v"
      using generateParticles_points(3) [OF g i] by blast
    have "call_number shape count rnd n i = n + 3 * i"
      using call_number_default [OF assms(1), of i count] i by simp
    then have "default_case rnd (n + 3 * i) = (Inr v, call_number shape count rnd n (Suc i))"
      using v i assms(1) by (simp add: particle_switch switch_shape_default)
    then have "v = (random rnd (n + 3 * i) (- 10) 10, random rnd (n + 3 * i + 1) (- 10) 10,
                random rnd (n + 3 * i + 2) (- 10) 10)"
      by (simp add: default_case_def)
    then show ?thesis using p by simp
  qed
  have b: "- 10 \<le> Math_fround (random rnd q (- 10) 10)
      \<and> Math_fround (random rnd q (- 10) 10) \<le> 10" for q
    using random_bounds [OF assms(2), of "- 10" 10 q] by (intro Math_fround_within_10) simp_all
  have "- 10 \<le> e \<and> e \<le> 10" if e: "e \<in> set buf" for e
  proof -
    from e obtain k where k: "k < length buf" "e = buf ! k" by (auto simp: in_set_conv_nth)
    have kc: "k < 3 * count" using k len by simp
    obtain x y z where p: "point_of buf (k div 3) = (x, y, z)"
      by (cases "point_of buf (k div 3)")
    have j: "k div 3 < count" and xyz: "buf ! k = x \<or> buf ! k = y \<or> buf ! k = z"
      using entry_of_point [OF kc, of buf] p by simp_all
    have "(- 10 \<le> x \<and> x \<le> 10) \<and> (- 10 \<le> y \<and> y \<le> 10) \<and> (- 10 \<le> z \<and> z \<le> 10)"
      using pt [OF j] p b by (simp add: stored_def)
    then show ?thesis using xyz k by auto
  qed
  then show ?thesis using g len n' pt by blast
qed

theorem generateParticles_unknown_shape_witness:
  "''Teapot'' \<notin> set ShapeType \<and> unit_rng rnd_cycle
   \<and> generateParticles ''Teapot'' 1 rnd_cycle 0 = (Inr [- 10, - 5, 0], 3)"
proof -
  have s: "''Teapot'' \<notin> set ShapeType" by (simp add: ShapeType_def ShapeType_defs)
  obtain buf where g: "generateParticles ''Teapot'' 1 rnd_cycle 0 = (Inr buf, 0 + 3 * 1)"
    and l: "length buf = 3 * 1"
    and p: "\<forall>i < 1. point_of buf i =
                 stored (random rnd_cycle (0 + 3 * i) (- 10) 10,
                         random rnd_cycle (0 + 3 * i + 1) (- 10) 10,
                         random rnd_cycle (0 + 3 * i + 2) (- 10) 10)"
    using generateParticles_unknown_shape [OF s unit_rng_cycle, of 1 0] by blast
  have "point_of buf 0 = (- 10, - 5, 0)"
    using p [rule_format, of 0] by (simp add: stored_def random_def rnd_cycle_def)
  then have "buf = [- 10, - 5, 0]" using l by (intro single_point_buffer) simp_all
  then show ?thesis using s unit_rng_cycle g by simp
qed

section \<open>Sphere\<close>

lemma circle_scale: "(w * cos u)\<^sup>2 + (w * sin u)\<^sup>2 = (w::real)\<^sup>2"
proof -
  have "(w * cos u)\<^sup>2 + (w * sin u)\<^sup>2 = w\<^sup>2 * (cos u)\<^sup>2 + w\<^sup>2 * (sin u)\<^sup>2"
    by (simp only: power_mult_distrib)
  also have "\<dots> = w\<^sup>2 * ((sin u)\<^sup>2 + (cos u)\<^sup>2)"
    by (simp only: distrib_left add.commute)
  also have "\<dots> = w\<^sup>2" by simp
  finally show ?thesis .
qed

lemma sphere_case_norm:
  assumes "sphere_case t i = Inr (x, y, z)"
  shows "x\<^sup>2 + y\<^sup>2 + z\<^sup>2 = 100"
proof -
  define phi where "phi = arccos (1 - 2 * t)"
  define theta where "theta = pi * (1 + sqrt 5) * real i"
  have xyz: "x = 10 * sin phi * cos theta" "y = 10 * sin phi * sin theta" "z = 10 * cos phi"
    using assms
    by (simp_all add: sphere_case_def on_finite_def Math_acos_def Let_def phi_def theta_def
        split: if_splits)
  have "x\<^sup>2 + y\<^sup>2 = (10 * sin phi)\<^sup>2"
    unfolding xyz by (rule circle_scale)
  moreover have "(10 * sin phi)\<^sup>2 + z\<^sup>2 = 10\<^sup>2"
    unfolding xyz using circle_scale [of 10 phi] by (simp only: add.commute)
  ultimately show ?thesis by simp
qed

text \<open>The Euclidean norm and the rounding of the store.\<close>

lemma norm3_triangle:
  "sqrt ((a + d)\<^sup>2 + (b + e)\<^sup>2 + (c + f)\<^sup>2)
     \<le> sqrt (a\<^sup>2 + b\<^sup>2 + c\<^sup>2) + sqrt (d\<^sup>2 + e\<^sup>2 + f\<^sup>2)"
proof -
  define A where "A = sqrt (a\<^sup>2 + b\<^sup>2)"
  define B where "B = sqrt (d\<^sup>2 + e\<^sup>2)"
  have A: "0 \<le> A" "A\<^sup>2 = a\<^sup>2 + b\<^sup>2" by (simp_all add: A_def)
  have B: "0 \<le> B" "B\<^sup>2 = d\<^sup>2 + e\<^sup>2" by (simp_all add: B_def)
  have "sqrt ((a + d)\<^sup>2 + (b + e)\<^sup>2) \<le> A + B"
    unfolding A_def B_def by (rule real_sqrt_sum_squares_triangle_ineq)
  then have "(a + d)\<^sup>2 + (b + e)\<^sup>2 \<le> (A + B)\<^sup>2"
    by (rule sqrt_le_D)
  then have "sqrt ((a + d)\<^sup>2 + (b + e)\<^sup>2 + (c + f)\<^sup>2) \<le> sqrt ((A + B)\<^sup>2 + (c + f)\<^sup>2)"
    by simp
  also have "\<dots> \<le> sqrt (A\<^sup>2 + c\<^sup>2) + sqrt (B\<^sup>2 + f\<^sup>2)"
    by (rule real_sqrt_sum_squares_triangle_ineq)
  finally show ?thesis by (simp add: A(2) B(2))
qed

lemma norm3_perturbed:
  "\<bar>sqrt (x'\<^sup>2 + y'\<^sup>2 + z'\<^sup>2) - sqrt (x\<^sup>2 + y\<^sup>2 + z\<^sup>2)\<bar>
     \<le> sqrt ((x' - x)\<^sup>2 + (y' - y)\<^sup>2 + (z' - z)\<^sup>2)"
proof -
  have "sqrt (x'\<^sup>2 + y'\<^sup>2 + z'\<^sup>2)
      \<le> sqrt (x\<^sup>2 + y\<^sup>2 + z\<^sup>2) + sqrt ((x' - x)\<^sup>2 + (y' - y)\<^sup>2 + (z' - z)\<^sup>2)"
    using norm3_triangle [of x "x' - x" y "y' - y" z "z' - z"] by simp
  moreover have "sqrt (x\<^sup>2 + y\<^sup>2 + z\<^sup>2)
      \<le> sqrt (x'\<^sup>2 + y'\<^sup>2 + z'\<^sup>2) + sqrt ((x - x')\<^sup>2 + (y - y')\<^sup>2 + (z - z')\<^sup>2)"
    using norm3_triangle [of x' "x - x'" y' "y - y'" z' "z - z'"] by simp
  moreover have "(x - x')\<^sup>2 = (x' - x)\<^sup>2" "(y - y')\<^sup>2 = (y' - y)\<^sup>2" "(z - z')\<^sup>2 = (z' - z)\<^sup>2"
    by (simp_all add: power2_commute)
  ultimately show ?thesis by simp
qed

lemma small_errors:
  fixes a b c :: real
  assumes "\<bar>a\<bar> \<le> pow2 (- 21)" and "\<bar>b\<bar> \<le> pow2 (- 21)" and "\<bar>c\<bar> \<le> pow2 (- 21)"
  shows "sqrt (a\<^sup>2 + b\<^sup>2 + c\<^sup>2) \<le> 1 / 10 ^ 6"
proof -
  have p: "pow2 (- 21) = 1 / 2 ^ 21" by (simp add: pow2_def)
  have s: "u\<^sup>2 \<le> (1 / 2 ^ 21)\<^sup>2" if "\<bar>u\<bar> \<le> 1 / 2 ^ 21" for u :: real
    using that by (intro power2_le_iff_abs_le [THEN iffD2]) simp_all
  have "a\<^sup>2 + b\<^sup>2 + c\<^sup>2 \<le> 3 * (1 / 2 ^ 21)\<^sup>2"
    using s [of a] s [of b] s [of c] assms unfolding p by linarith
  also have "\<dots> \<le> (1 / 10 ^ 6)\<^sup>2" by (simp add: power2_eq_square)
  finally show ?thesis by (intro real_le_lsqrt) simp_all
qed

lemma coordinate_error:
  assumes "x\<^sup>2 \<le> 121"
  shows "\<bar>Math_fround x - x\<bar> \<le> pow2 (- 21)"
proof -
  have "x\<^sup>2 \<le> 11\<^sup>2" using assms by simp
  then have "\<bar>x\<bar> \<le> 11" by (simp only: abs_le_square_iff [symmetric])
  then have "\<bar>x\<bar> \<le> pow2 4" by (simp add: pow2_def)
  then show ?thesis using Math_fround_error [of x 4] by simp
qed

text \<open>
  C5. generateParticles(Sphere, 12) returns a buffer, and each of its 12 points, as the
  buffer holds it, lies at Euclidean distance 10 from the origin, within \<open>10\<^sup>-\<^sup>6\<close>.
\<close>

theorem sphere_12_on_radius_10:
  "\<exists>buf n'. generateParticles Sphere 12 rnd n = (Inr buf, n') \<and>
     (\<forall>j < 12. case point_of buf j of (x, y, z) \<Rightarrow>
        \<bar>sqrt (x\<^sup>2 + y\<^sup>2 + z\<^sup>2) - 10\<bar> \<le> 1 / 10 ^ 6)"
proof -
  have fin: "\<not> isl (fst (particle Sphere 12 rnd m i))" if "i < 12" for i m
  proof -
    have "0 \<le> real i / 12" "real i / 12 < 1" using that by simp_all
    then show ?thesis
      using that by (simp add: particle_switch switch_shape_Sphere sphere_case_defined)
  qed
  obtain buf n' where g: "generateParticles Sphere 12 rnd n = (Inr buf, n')"
    using generateParticles_total [of 12 Sphere rnd n] fin by blast
  have "case point_of buf j of (x, y, z) \<Rightarrow> \<bar>sqrt (x\<^sup>2 + y\<^sup>2 + z\<^sup>2) - 10\<bar> \<le> 1 / 10 ^ 6"
    if j: "j < 12" for j
  proof -
    obtain v m m' where pv: "particle Sphere 12 rnd m j = (Inr v, m')"
      and p: "point_of buf j = stored v"
      using generateParticles_points(3) [OF g j] by blast
    obtain x y z where v: "v = (x, y, z)" by (cases v)
    have "sphere_case (real j / real (12::nat)) j = Inr (x, y, z)"
      using pv v j by (simp add: particle_switch switch_shape_Sphere)
    then have n: "x\<^sup>2 + y\<^sup>2 + z\<^sup>2 = 100" by (rule sphere_case_norm)
    have r: "sqrt (x\<^sup>2 + y\<^sup>2 + z\<^sup>2) = 10"
      unfolding n using real_sqrt_abs [of 10] by simp
    have "0 \<le> x\<^sup>2" "0 \<le> y\<^sup>2" "0 \<le> z\<^sup>2" by simp_all
    then have "x\<^sup>2 \<le> 121" "y\<^sup>2 \<le> 121" "z\<^sup>2 \<le> 121"
      using n by linarith+
    then have "sqrt ((Math_fround x - x)\<^sup>2 + (Math_fround y - y)\<^sup>2 + (Math_fround z - z)\<^sup>2)
        \<le> 1 / 10 ^ 6"
      by (intro small_errors coordinate_error)
    then have "\<bar>sqrt ((Math_fround x)\<^sup>2 + (Math_fround y)\<^sup>2 + (Math_fround z)\<^sup>2) - 10\<bar>
        \<le> 1 / 10 ^ 6"
      using norm3_perturbed [of "Math_fround x" "Math_fround y" "Math_fround z" x y z]
      unfolding r by linarith
    then show ?thesis by (simp add: p v stored_def)
  qed
  then show ?thesis using g by blast
qed

theorem sphere_12_on_radius_10_witness:
  "(5::nat) < 12 \<and>
   (\<exists>buf n'. generateParticles Sphere 12 (rnd_const 0) 0 = (Inr buf, n') \<and>
     (case point_of buf 5 of (x, y, z) \<Rightarrow> \<bar>sqrt (x\<^sup>2 + y\<^sup>2 + z\<^sup>2) - 10\<bar> \<le> 1 / 10 ^ 6))"
proof -
  obtain buf n' where g: "generateParticles Sphere 12 (rnd_const 0) 0 = (Inr buf, n')"
    and a: "\<forall>j < 12. case point_of buf j of (x, y, z) \<Rightarrow>
        \<bar>sqrt (x\<^sup>2 + y\<^sup>2 + z\<^sup>2) - 10\<bar> \<le> 1 / 10 ^ 6"
    using sphere_12_on_radius_10 [of "rnd_const 0" 0] by blast
  have "case point_of buf 5 of (x, y, z) \<Rightarrow> \<bar>sqrt (x\<^sup>2 + y\<^sup>2 + z\<^sup>2) - 10\<bar> \<le> 1 / 10 ^ 6"
    using a [rule_format, of 5] by simp
  with g show ?thesis by (intro conjI exI [of _ buf] exI [of _ n']) simp_all
qed

section \<open>Clifford torus\<close>

lemma clifford_case_axis_distance:
  assumes "clifford_case t i = Inr (x, y, z)"
  shows "5 \<le> sqrt (x\<^sup>2 + y\<^sup>2) \<and> sqrt (x\<^sup>2 + y\<^sup>2) \<le> 11"
proof -
  define u where "u = t * pi * 2"
  define v where "v = (real (i mod 200) / 200) * pi * 2"
  define w where "w = 8 + 3 * cos v"
  have xy: "x = w * cos u" "y = w * sin u"
    using assms by (simp_all add: clifford_case_def Let_def u_def v_def w_def)
  have c: "- 1 \<le> cos v" "cos v \<le> 1" by simp_all
  have w: "5 \<le> w" "w \<le> 11" using c unfolding w_def by linarith+
  have "x\<^sup>2 + y\<^sup>2 = w\<^sup>2" unfolding xy by (rule circle_scale)
  then have "sqrt (x\<^sup>2 + y\<^sup>2) = \<bar>w\<bar>" by (simp only: real_sqrt_abs)
  then show ?thesis using w by simp
qed

lemma clifford_stored_axis_distance:
  assumes "clifford_case t i = Inr v" and "stored v = (x, y, z)"
  shows "5 - 1 / 10 ^ 6 \<le> sqrt (x\<^sup>2 + y\<^sup>2) \<and> sqrt (x\<^sup>2 + y\<^sup>2) \<le> 11 + 1 / 10 ^ 6"
proof -
  obtain a b c where v: "v = (a, b, c)" by (cases v)
  have xy: "x = Math_fround a" "y = Math_fround b" using assms(2) by (simp_all add: v stored_def)
  have d: "5 \<le> sqrt (a\<^sup>2 + b\<^sup>2)" "sqrt (a\<^sup>2 + b\<^sup>2) \<le> 11"
    using clifford_case_axis_distance [of t i a b c] assms(1) v by simp_all
  have "a\<^sup>2 + b\<^sup>2 \<le> 11\<^sup>2" using d(2) by (rule sqrt_le_D)
  then have ab: "a\<^sup>2 + b\<^sup>2 \<le> 121" by simp
  have "0 \<le> a\<^sup>2" "0 \<le> b\<^sup>2" by simp_all
  then have "a\<^sup>2 \<le> 121" "b\<^sup>2 \<le> 121" using ab by linarith+
  then have e: "\<bar>x - a\<bar> \<le> pow2 (- 21)" "\<bar>y - b\<bar> \<le> pow2 (- 21)"
    unfolding xy using coordinate_error [of a] coordinate_error [of b] by simp_all
  have "\<bar>0::real\<bar> \<le> pow2 (- 21)" using less_imp_le [OF pow2_pos [of "- 21"]] by simp
  then have "sqrt ((x - a)\<^sup>2 + (y - b)\<^sup>2 + 0\<^sup>2) \<le> 1 / 10 ^ 6"
    using e by (intro small_errors)
  moreover have "\<bar>sqrt (x\<^sup>2 + y\<^sup>2 + 0\<^sup>2) - sqrt (a\<^sup>2 + b\<^sup>2 + 0\<^sup>2)\<bar>
      \<le> sqrt ((x - a)\<^sup>2 + (y - b)\<^sup>2 + (0 - 0)\<^sup>2)"
    by (rule norm3_perturbed)
  ultimately have "\<bar>sqrt (x\<^sup>2 + y\<^sup>2) - sqrt (a\<^sup>2 + b\<^sup>2)\<bar> \<le> 1 / 10 ^ 6" by simp
  then show ?thesis using d by linarith
qed

lemma clifford_particle_defined: "i < 1000 \<Longrightarrow> \<not> isl (fst (particle Clifford 1000 rnd m i))"
  by (simp add: particle_switch switch_shape_Clifford clifford_case_def Let_def)

text \<open>
  C6, as amended. generateParticles(Clifford, 1000) returns a buffer, and the
  distance \<open>sqrt (x\<^sup>2 + y\<^sup>2)\<close> from the z-axis of each of its 1000 points, as the buffer
  holds it, lies in \<open>[5 - 10\<^sup>-\<^sup>6, 11 + 10\<^sup>-\<^sup>6]\<close>: the unrounded point lies in \<open>[5, 11]\<close>, and
  the store moves each coordinate by at most \<open>2\<^sup>-\<^sup>2\<^sup>1\<close>.
\<close>

theorem clifford_1000_axis_distance:
  "\<exists>buf n'. generateParticles Clifford 1000 rnd n = (Inr buf, n') \<and>
     (\<forall>j < 1000. case point_of buf j of (x, y, z) \<Rightarrow>
        5 - 1 / 10 ^ 6 \<le> sqrt (x\<^sup>2 + y\<^sup>2) \<and> sqrt (x\<^sup>2 + y\<^sup>2) \<le> 11 + 1 / 10 ^ 6)"
proof -
  obtain buf n' where g: "generateParticles Clifford 1000 rnd n = (Inr buf, n')"
    using generateParticles_total [of 1000 Clifford rnd n] clifford_particle_defined by blast
  have "case point_of buf j of (x, y, z) \<Rightarrow>
      5 - 1 / 10 ^ 6 \<le> sqrt (x\<^sup>2 + y\<^sup>2) \<and> sqrt (x\<^sup>2 + y\<^sup>2) \<le> 11 + 1 / 10 ^ 6"
    if j: "j < 1000" for j
  proof -
    obtain x y z where p: "point_of buf j = (x, y, z)" by (cases "point_of buf j")
    obtain v m m' where "particle Clifford 1000 rnd m j = (Inr v, m')"
      and s: "point_of buf j = stored v"
      using generateParticles_points(3) [OF g j] by blast
    then have "clifford_case (real j / real (1000::nat)) j = Inr v"
      using j by (simp add: particle_switch switch_shape_Clifford)
    then show ?thesis using clifford_stored_axis_distance [of _ j v x y z] p s by simp
  qed
  then show ?thesis using g by blast
qed

theorem clifford_1000_axis_distance_witness:
  "(100::nat) < 1000 \<and>
   (\<exists>buf n'. generateParticles Clifford 1000 (rnd_const 0) 0 = (Inr buf, n') \<and>
     (case point_of buf 100 of (x, y, z) \<Rightarrow>
        5 - 1 / 10 ^ 6 \<le> sqrt (x\<^sup>2 + y\<^sup>2) \<and> sqrt (x\<^sup>2 + y\<^sup>2) \<le> 11 + 1 / 10 ^ 6))"
proof -
  obtain buf n' where g: "generateParticles Clifford 1000 (rnd_const 0) 0 = (Inr buf, n')"
    and a: "\<forall>j < 1000. case point_of buf j of (x, y, z) \<Rightarrow>
        5 - 1 / 10 ^ 6 \<le> sqrt (x\<^sup>2 + y\<^sup>2) \<and> sqrt (x\<^sup>2 + y\<^sup>2) \<le> 11 + 1 / 10 ^ 6"
    using clifford_1000_axis_distance [of "rnd_const 0" 0] by blast
  have "case point_of buf 100 of (x, y, z) \<Rightarrow>
        5 - 1 / 10 ^ 6 \<le> sqrt (x\<^sup>2 + y\<^sup>2) \<and> sqrt (x\<^sup>2 + y\<^sup>2) \<le> 11 + 1 / 10 ^ 6"
    using a [rule_format, of 100] by simp
  with g show ?thesis by (intro conjI exI [of _ buf] exI [of _ n']) simp_all
qed

text \<open>The point of index 100: \<open>u = \<pi> / 5\<close> and \<open>v = \<pi>\<close>, on the inner circle of radius 5.\<close>

lemma clifford_case_100:
  "clifford_case (real 100 / real 1000) 100 = Inr (5 * cos (pi / 5), 5 * sin (pi / 5), 0)"
proof -
  have "real 100 / real 1000 * pi * 2 = pi / 5" by simp
  moreover have "real (100 mod 200) / 200 * pi * 2 = pi" by simp
  ultimately show ?thesis unfolding clifford_case_def Let_def by simp
qed

lemma cos_pi_5_pos: "0 < cos (pi / 5)"
proof -
  have "- (pi / 2) < pi / 5" "pi / 5 < pi / 2" using pi_gt_zero by linarith+
  then show ?thesis by (rule cos_gt_zero_pi)
qed

lemma cos_pi_5_quadratic: "4 * (cos (pi / 5))\<^sup>2 - 2 * cos (pi / 5) - 1 = 0"
proof -
  define c where "c = cos (pi / 5)"
  have "cos (3 * (pi / 5)) = cos (pi - 2 * (pi / 5))" by simp
  also have "\<dots> = - cos (2 * (pi / 5))" by (rule cos_pi_minus)
  finally have "4 * c ^ 3 - 3 * c = - (2 * c\<^sup>2 - 1)"
    unfolding cos_treble_cos cos_double_cos c_def .
  then have "(c + 1) * (4 * c\<^sup>2 - 2 * c - 1) = 0"
    by (simp add: algebra_simps power2_eq_square power3_eq_cube)
  moreover have "0 < c" unfolding c_def by (rule cos_pi_5_pos)
  ultimately show ?thesis unfolding c_def by simp
qed

lemma cos_pi_5_bounds:
  "80901699 / 100000000 < cos (pi / 5)" "cos (pi / 5) < 809017 / 1000000"
proof -
  define c where "c = cos (pi / 5)"
  have q: "4 * (c * c) - 2 * c - 1 = 0"
    using cos_pi_5_quadratic by (simp add: c_def power2_eq_square)
  have pos: "0 < c" unfolding c_def by (rule cos_pi_5_pos)
  show "80901699 / 100000000 < cos (pi / 5)"
  proof (rule ccontr)
    assume "\<not> 80901699 / 100000000 < cos (pi / 5)"
    then have le: "c \<le> 80901699 / 100000000" by (simp add: c_def)
    have "c * c \<le> 80901699 / 100000000 * c" using le pos by (intro mult_right_mono) simp_all
    then show False using q le by linarith
  qed
  show "cos (pi / 5) < 809017 / 1000000"
  proof (rule ccontr)
    assume "\<not> cos (pi / 5) < 809017 / 1000000"
    then have ge: "809017 / 1000000 \<le> c" by (simp add: c_def)
    have "809017 / 1000000 * c \<le> c * c" using ge pos by (intro mult_right_mono) simp_all
    then show False using q ge by linarith
  qed
qed

lemma sin_pi_5_bounds:
  "123267495 / 209715200 < sin (pi / 5)" "sin (pi / 5) < 123267505 / 209715200"
proof -
  define c where "c = cos (pi / 5)"
  define s where "s = sin (pi / 5)"
  have c: "80901699 / 100000000 < c" "c < 809017 / 1000000"
    using cos_pi_5_bounds by (simp_all add: c_def)
  have "0 < pi / 5" "pi / 5 < pi" using pi_gt_zero by linarith+
  then have s: "0 < s" unfolding s_def by (rule sin_gt_zero)
  have "s\<^sup>2 + c\<^sup>2 = 1" unfolding s_def c_def by (rule sin_cos_squared_add)
  then have sc: "s * s + c * c = 1" by (simp only: power2_eq_square)
  have "80901699 / 100000000 * (80901699 / 100000000) < c * c"
    using c(1) by (intro mult_strict_mono) simp_all
  then have u: "s * s < 1 - 80901699 / 100000000 * (80901699 / 100000000)"
    using sc by linarith
  have "c * c < 809017 / 1000000 * (809017 / 1000000)"
    using c by (intro mult_strict_mono) simp_all
  then have l: "1 - 809017 / 1000000 * (809017 / 1000000) < s * s" using sc by linarith
  have "123267495 / 209715200 * (123267495 / 209715200)
      < (1::real) - 809017 / 1000000 * (809017 / 1000000)"
    by simp
  then have "(123267495 / 209715200)\<^sup>2 < s\<^sup>2"
    unfolding power2_eq_square using l by linarith
  then show "123267495 / 209715200 < sin (pi / 5)"
    unfolding s_def [symmetric] by (rule power2_less_imp_less) (use s in simp)
  have "(1::real) - 80901699 / 100000000 * (80901699 / 100000000)
      < 123267505 / 209715200 * (123267505 / 209715200)"
    by simp
  then have "s\<^sup>2 < (123267505 / 209715200)\<^sup>2"
    unfolding power2_eq_square using u by linarith
  then show "sin (pi / 5) < 123267505 / 209715200"
    unfolding s_def [symmetric] by (rule power2_less_imp_less) simp
qed

lemma round_ties_even_near:
  assumes "of_int m - 1 / 2 < y" and "y < of_int m + 1 / 2"
  shows "round_ties_even y = m"
proof -
  have "\<bar>of_int (round_ties_even y) - y\<bar> \<le> 1 / 2" by (rule round_ties_even_error)
  then have "\<bar>of_int (round_ties_even y) - (of_int m :: real)\<bar> < 1" using assms by linarith
  then have "\<bar>of_int (round_ties_even y - m) :: real\<bar> < 1" by simp
  then have "\<bar>round_ties_even y - m\<bar> < 1" by linarith
  then show ?thesis by simp
qed

lemma stored_clifford_100:
  "stored (5 * cos (pi / 5), 5 * sin (pi / 5), 0) = (8483158 / 2 ^ 21, 12326750 / 2 ^ 22, 0)"
proof -
  define c where "c = cos (pi / 5)"
  define s where "s = sin (pi / 5)"
  have c: "80901699 / 100000000 < c" "c < 809017 / 1000000"
    using cos_pi_5_bounds by (simp_all add: c_def)
  have s: "123267495 / 209715200 < s" "s < 123267505 / 209715200"
    using sin_pi_5_bounds by (simp_all add: s_def)
  have p: "pow2 2 = 4" "pow2 (2 + 1) = 8" "pow2 1 = 2" "pow2 (1 + 1) = 4"
    "pow2 (2 - 23) = 1 / 2097152" "pow2 (1 - 23) = 1 / 4194304"
    by (simp_all add: pow2_def)
  have xs: "5 * c / pow2 (2 - 23) = 10485760 * c" unfolding p by simp
  have ys: "5 * s / pow2 (1 - 23) = 20971520 * s" unfolding p by simp
  have "pow2 2 \<le> \<bar>5 * c\<bar>" "\<bar>5 * c\<bar> < pow2 (2 + 1)" unfolding p using c by linarith+
  then have "Math_fround (5 * c)
      = of_int (round_ties_even (5 * c / pow2 (2 - 23))) * pow2 (2 - 23)"
    by (rule Math_fround_binade) simp
  moreover have "round_ties_even (5 * c / pow2 (2 - 23)) = 8483158"
  proof (rule round_ties_even_near)
    show "of_int 8483158 - 1 / 2 < 5 * c / pow2 (2 - 23)" unfolding xs using c by simp
    show "5 * c / pow2 (2 - 23) < of_int 8483158 + 1 / 2" unfolding xs using c by simp
  qed
  ultimately have x: "Math_fround (5 * c) = 8483158 / 2 ^ 21" unfolding p by simp
  have "pow2 1 \<le> \<bar>5 * s\<bar>" "\<bar>5 * s\<bar> < pow2 (1 + 1)" unfolding p using s by linarith+
  then have "Math_fround (5 * s)
      = of_int (round_ties_even (5 * s / pow2 (1 - 23))) * pow2 (1 - 23)"
    by (rule Math_fround_binade) simp
  moreover have "round_ties_even (5 * s / pow2 (1 - 23)) = 12326750"
  proof (rule round_ties_even_near)
    show "of_int 12326750 - 1 / 2 < 5 * s / pow2 (1 - 23)" unfolding xs ys using s by simp
    show "5 * s / pow2 (1 - 23) < of_int 12326750 + 1 / 2" unfolding ys using s by simp
  qed
  ultimately have y: "Math_fround (5 * s) = 12326750 / 2 ^ 22" unfolding p by simp
  show ?thesis using x y unfolding stored_def c_def s_def by simp
qed

text \<open>
  C6 as stated fails at index 100 of generateParticles(Clifford, 1000). There
  \<open>u = \<pi> / 5\<close> and \<open>v = \<pi>\<close>: the point \<open>(5 cos u, 5 sin u, 0)\<close> lies at distance exactly 5 from
  the z-axis, the buffer holds its coordinates rounded to \<open>8483158 / 2\<^sup>2\<^sup>1\<close> and
  \<open>12326750 / 2\<^sup>2\<^sup>2\<close>, and the distance of the point the buffer holds is less than 5.
\<close>

theorem clifford_point_100_inside_radius_5:
  "\<exists>buf n'. generateParticles Clifford 1000 (rnd_const 0) 0 = (Inr buf, n') \<and>
     point_of buf 100 = (8483158 / 2 ^ 21, 12326750 / 2 ^ 22, 0) \<and>
     (case point_of buf 100 of (x, y, z) \<Rightarrow> sqrt (x\<^sup>2 + y\<^sup>2) < 5)"
proof -
  obtain buf n' where g: "generateParticles Clifford 1000 (rnd_const 0) 0 = (Inr buf, n')"
    using generateParticles_total [of 1000 Clifford "rnd_const 0" 0] clifford_particle_defined
    by blast
  obtain v m m' where "particle Clifford 1000 (rnd_const 0) m 100 = (Inr v, m')"
    and s: "point_of buf 100 = stored v"
    using generateParticles_points(3) [OF g, of 100] by auto
  then have "clifford_case (real 100 / real 1000) 100 = Inr v"
    by (simp add: particle_switch [of 100 1000] switch_shape_Clifford)
  then have "v = (5 * cos (pi / 5), 5 * sin (pi / 5), 0)" unfolding clifford_case_100 by simp
  then have p: "point_of buf 100 = (8483158 / 2 ^ 21, 12326750 / 2 ^ 22, 0)"
    using s stored_clifford_100 by simp
  have "(8483158 / 2 ^ 21)\<^sup>2 + (12326750 / 2 ^ 22)\<^sup>2 < (5::real)\<^sup>2"
    by (simp add: power2_eq_square)
  then have "sqrt ((8483158 / 2 ^ 21)\<^sup>2 + (12326750 / 2 ^ 22)\<^sup>2) < 5"
    by (intro real_less_lsqrt) simp_all
  then show ?thesis using g p by (intro exI [of _ buf] exI [of _ n']) simp
qed

section \<open>Lorenz: the points at multiples of 100\<close>

lemma lorenz_case_origin:
  "i mod 100 = 0 \<Longrightarrow> lorenz_case i rnd n = (Inr (0, 0, 0), n + 3)"
  by (simp add: lorenz_case_def Let_def)

lemma lorenz_case_returns: "\<not> isl (fst (lorenz_case i rnd n))"
  by (simp add: lorenz_case_def Let_def split: prod.splits)

lemma particle_Lorenz_returns: "i < count \<Longrightarrow> \<not> isl (fst (particle Lorenz count rnd m i))"
  by (simp add: particle_switch switch_shape_Lorenz lorenz_case_returns)

text \<open>
  C10. For every \<open>count > 0\<close>, generateParticles(Lorenz, count) returns a buffer in
  which every point whose index is a multiple of 100 (index 0 included) is the origin:
  the three values drawn in that branch do not reach the coordinates.
\<close>

theorem lorenz_multiples_of_100_at_origin:
  assumes "0 < count"
  shows "\<exists>buf n'. generateParticles Lorenz count rnd n = (Inr buf, n') \<and>
     (\<forall>i < count. i mod 100 = 0 \<longrightarrow> point_of buf i = (0, 0, 0))"
proof -
  obtain buf n' where g: "generateParticles Lorenz count rnd n = (Inr buf, n')"
    using generateParticles_total [of count Lorenz rnd n] particle_Lorenz_returns by blast
  have "point_of buf i = (0, 0, 0)" if i: "i < count" "i mod 100 = 0" for i
  proof -
    obtain v m m' where "particle Lorenz count rnd m i = (Inr v, m')"
      and s: "point_of buf i = stored v"
      using generateParticles_points(3) [OF g i(1)] by blast
    then have "v = (0, 0, 0)"
      using i by (simp add: particle_switch switch_shape_Lorenz lorenz_case_origin)
    then show ?thesis using s by (simp add: stored_def)
  qed
  then show ?thesis using g by blast
qed

theorem lorenz_multiples_of_100_at_origin_witness:
  "(0::nat) < 1 \<and> generateParticles Lorenz 1 (rnd_const (1 / 2)) 0 = (Inr [0, 0, 0], 3)"
proof -
  obtain buf n' where g: "generateParticles Lorenz 1 (rnd_const (1 / 2)) 0 = (Inr buf, n')"
    and a: "\<forall>i < 1. i mod 100 = 0 \<longrightarrow> point_of buf i = (0, 0, 0)"
    using lorenz_multiples_of_100_at_origin [of 1 "rnd_const (1 / 2)" 0] by auto
  have p: "point_of buf 0 = (0, 0, 0)" using a [rule_format, of 0] by simp
  have l: "length buf = 3" using generateParticles_points(1) [OF g] by simp
  have b: "buf = [0, 0, 0]" using l p by (rule single_point_buffer)
  have "call_number Lorenz 1 (rnd_const (1 / 2)) 0 (Suc 0) = 3"
    by (simp add: call_number.simps(2) particle_switch switch_shape_Lorenz lorenz_case_origin)
  then have "n' = 3" using generateParticles_points(2) [OF g] by simp
  with g b show ?thesis by simp
qed

section \<open>Which closed-form shapes draw random numbers\<close>

text \<open>A loop body that draws nothing gives the same buffer for every random sequence,
  and leaves the number of the next call where it was.\<close>

lemma fill_no_draw:
  assumes "\<And>r m i. i < count \<Longrightarrow> particle shape count r m i = (f i, m)"
  shows "fill shape count rnd i n ps = (fst (fill shape count rnd' i n' ps), n)"
  using assms
proof (induction shape count rnd i n ps arbitrary: n' rule: fill.induct)
  case (1 shape count rnd i n ps)
  show ?case
  proof (cases "i < count")
    case False
    then show ?thesis by (simp add: fill.simps)
  next
    case True
    have p: "particle shape count rnd n i = (f i, n)" "particle shape count rnd' n' i = (f i, n')"
      using "1.prems" [OF True] by simp_all
    show ?thesis
    proof (cases "f i")
      case (Inl e)
      then show ?thesis using True p by (simp add: fill.simps [of shape count _ i])
    next
      case (Inr v)
      obtain x y z where v: "v = (x, y, z)" by (cases v)
      let ?ps = "ps[i * 3 := Math_fround x, i * 3 + 1 := Math_fround y,
                    i * 3 + 2 := Math_fround z]"
      have "fill shape count rnd (Suc i) n ?ps = (fst (fill shape count rnd' (Suc i) n' ?ps), n)"
        using "1.IH" [OF True p(1) [symmetric] Inr, of x "(y, z)" y z n'] v "1.prems" by simp
      then show ?thesis using True p Inr v by (simp add: fill.simps [of shape count _ i])
    qed
  qed
qed

lemma generateParticles_no_draw:
  assumes "\<And>r m i. i < count \<Longrightarrow> particle shape count r m i = (f i, m)"
    and "\<And>i. i < count \<Longrightarrow> \<not> isl (f i)"
  shows "\<exists>buf. generateParticles shape count rnd n = (Inr buf, n)
           \<and> generateParticles shape count rnd' n' = (Inr buf, n')"
proof -
  have fin: "\<not> isl (fst (particle shape count r m i))" if "i < count" for r m i
    using that assms by simp
  obtain buf k where g: "generateParticles shape count rnd n = (Inr buf, k)"
    using generateParticles_total [of count shape rnd n] fin by blast
  have a: "generateParticles shape count rnd n = (fst (generateParticles shape count rnd' n'), n)"
    unfolding generateParticles_def using assms(1) by (rule fill_no_draw)
  have b: "generateParticles shape count rnd' n' = (fst (generateParticles shape count rnd' n'), n')"
    unfolding generateParticles_def using assms(1) by (rule fill_no_draw)
  from g a have "fst (generateParticles shape count rnd' n') = Inr buf" "k = n" by simp_all
  with g b show ?thesis by simp
qed

text \<open>
  C2, as amended. For Sphere, Klein, Clifford and Lissajous and every count, two runs of
  generateParticles return the same buffer whatever the random sequences are, and no
  call of \<^verbatim>\<open>Math.random\<close> is made. (Mobius draws one number per point and Trefoil three.)
\<close>

theorem closed_form_shapes_deterministic:
  assumes "shape \<in> {Sphere, Klein, Clifford, Lissajous}"
  shows "\<exists>buf. generateParticles shape count rnd n = (Inr buf, n)
           \<and> generateParticles shape count rnd' n' = (Inr buf, n')"
proof -
  have t: "0 \<le> real i / real count" "real i / real count < 1" if "i < count" for i
    using that by simp_all
  consider "shape = Sphere" | "shape = Klein" | "shape = Clifford" | "shape = Lissajous"
    using assms by auto
  then show ?thesis
  proof cases
    case 1
    show ?thesis
      unfolding 1
      by (rule generateParticles_no_draw [where f = "\<lambda>i. sphere_case (real i / real count) i"])
        (simp_all add: particle_switch switch_shape_Sphere sphere_case_defined t)
  next
    case 2
    show ?thesis
      unfolding 2
      by (rule generateParticles_no_draw [where f = "\<lambda>i. klein_case (real i / real count) i"])
        (simp_all add: particle_switch switch_shape_Klein klein_case_def Let_def)
  next
    case 3
    show ?thesis
      unfolding 3
      by (rule generateParticles_no_draw [where f = "\<lambda>i. clifford_case (real i / real count) i"])
        (simp_all add: particle_switch switch_shape_Clifford clifford_case_def Let_def)
  next
    case 4
    show ?thesis
      unfolding 4
      by (rule generateParticles_no_draw [where f = "\<lambda>i. lissajous_case (real i / real count)"])
        (simp_all add: particle_switch switch_shape_Lissajous lissajous_case_def Let_def)
  qed
qed

theorem closed_form_shapes_deterministic_witness:
  "Clifford \<in> {Sphere, Klein, Clifford, Lissajous} \<and>
   (\<exists>buf. generateParticles Clifford 2 (rnd_const 0) 0 = (Inr buf, 0)
           \<and> generateParticles Clifford 2 (rnd_const (1 / 2)) 7 = (Inr buf, 7))"
  using closed_form_shapes_deterministic [of Clifford 2 "rnd_const 0" 0 "rnd_const (1 / 2)" 7]
  by simp

text \<open>The buffer of a single point.\<close>

lemma generateParticles_1:
  "generateParticles shape (Suc 0) rnd n =
     (case switch_shape shape 0 0 (Suc 0) rnd n of
        (Inl e, n') \<Rightarrow> (Inl e, n')
      | (Inr (x, y, z), n') \<Rightarrow> (Inr [Math_fround x, Math_fround y, Math_fround z], n'))"
  by (simp add: generateParticles_def fill.simps particle_switch numeral_3_eq_3
      split: prod.splits sum.splits)

lemma Math_fround_halves:
  "Math_fround (1 / 2) = 1 / 2" "Math_fround (- (1 / 2)) = - (1 / 2)"
  "Math_fround (- (9 / 2)) = - (9 / 2)"
  using Math_fround_exact [of "1 / 2" 1 "- 1"] Math_fround_exact [of "- (1 / 2)" "- 1" "- 1"]
    Math_fround_exact [of "- (9 / 2)" "- 9" "- 1"]
  by (simp_all add: pow2_def)

text \<open>
  C2 as stated fails: with one point, the Mobius and the Trefoil buffers follow the
  value \<^verbatim>\<open>Math.random\<close> returns.
\<close>

theorem mobius_trefoil_not_deterministic:
  "generateParticles Mobius 1 (rnd_const 0) 0 = (Inr [7, 0, 0], 1) \<and>
   generateParticles Mobius 1 (rnd_const (1 / 2)) 0 = (Inr [8, 0, 0], 1) \<and>
   generateParticles Trefoil 1 (rnd_const 0) 0 = (Inr [- 1 / 2, - 9 / 2, - 1 / 2], 3) \<and>
   generateParticles Trefoil 1 (rnd_const (1 / 2)) 0 = (Inr [0, - 4, 0], 3) \<and>
   fst (generateParticles Mobius 1 (rnd_const 0) 0)
     \<noteq> fst (generateParticles Mobius 1 (rnd_const (1 / 2)) 0) \<and>
   fst (generateParticles Trefoil 1 (rnd_const 0) 0)
     \<noteq> fst (generateParticles Trefoil 1 (rnd_const (1 / 2)) 0)"
  by (simp add: generateParticles_1 switch_shape_Mobius switch_shape_Trefoil mobius_case_def
      trefoil_case_def random_def rnd_const_def Let_def Math_fround_halves)

section \<open>The generator returns a buffer\<close>

text \<open>For random values in \<open>[0, 1)\<close> none of the operations that give \<^verbatim>\<open>NaN\<close> in exact
  arithmetic is reached with an argument outside its domain: acos only sees \<open>1 - 2 t\<close>
  and \<open>2 v - 1\<close> within \<open>[-1, 1]\<close>, the square root only a sum of squares, and the only
  divisors are \<open>count > 0\<close> and \<open>dist \<ge> 3\<close>. Overflow of the doubles in the integration
  loops is outside the model, so this does not say that the entries are finite numbers
  of the machine.\<close>

lemma chaos_steps_returns:
  "unit_rng rnd \<Longrightarrow> \<not> isl (chaos_steps rnd n s p)"
proof (induction s arbitrary: n p)
  case 0
  show ?case by simp
next
  case (Suc s)
  have r: "0 \<le> rnd n" "rnd n < 1" using Suc.prems by (simp_all add: unit_rng_def)
  have "0 \<le> \<lfloor>rnd n * 4\<rfloor>" using r by simp
  moreover have "\<lfloor>rnd n * 4\<rfloor> < 4" using r by (simp add: floor_less_iff)
  ultimately show ?case using Suc.IH [OF Suc.prems] by (simp add: Let_def)
qed

lemma sierpinski_case_returns:
  "unit_rng rnd \<Longrightarrow> \<not> isl (fst (sierpinski_case rnd n))"
  using chaos_steps_returns [of rnd] by (simp add: sierpinski_case_def Let_def)

lemma rossler_case_returns: "\<not> isl (rossler_case i)"
  by (simp add: rossler_case_def Let_def split: prod.split)

lemma quantum_case_returns:
  assumes u: "unit_rng rnd"
  shows "\<not> isl (fst (quantum_case rnd n))"
proof -
  have "0 \<le> random rnd (n + 1) 0 1 \<and> random rnd (n + 1) 0 1 \<le> 1"
    using random_bounds [OF u, of 0 1 "n + 1"] by simp
  then show ?thesis
    by (simp add: quantum_case_def on_finite_def Math_acos_def Let_def)
qed

lemma blackhole_case_returns:
  assumes u: "unit_rng rnd"
  shows "\<not> isl (fst (blackhole_case t rnd n))"
proof -
  have "0 \<le> random rnd n 0 15" using random_bounds [OF u, of 0 15 n] by simp
  then have "3 + random rnd n 0 15 \<noteq> 0" by linarith
  then show ?thesis
    by (simp add: blackhole_case_def on_finite_def js_div_def Let_def)
qed

lemma gravitywave_case_returns: "\<not> isl (fst (gravitywave_case t rnd n))"
  by (simp add: gravitywave_case_def on_finite_def Math_sqrt_def Let_def)

lemma hypercube_case_returns: "\<not> isl (fst (hypercube_case i count rnd n))"
  by (simp add: hypercube_case_def Let_def)

lemma penrose_case_returns: "\<not> isl (fst (penrose_case i rnd n))"
  by (simp add: penrose_case_def Let_def split: prod.split)

lemma returns_if:
  "\<not> isl (fst a) \<Longrightarrow> \<not> isl (fst b) \<Longrightarrow> \<not> isl (fst (if c then a else b))"
  by simp

lemma switch_shape_returns:
  assumes u: "unit_rng rnd" and t: "0 \<le> t" "t < 1"
  shows "\<not> isl (fst (switch_shape shape t i count rnd n))"
  unfolding switch_shape_def
  apply (intro returns_if)
  apply (simp_all add: sphere_case_defined [OF t] sierpinski_case_returns [OF u]
      lorenz_case_returns rossler_case_returns quantum_case_returns [OF u]
      blackhole_case_returns [OF u] gravitywave_case_returns hypercube_case_returns
      penrose_case_returns)
  apply (simp_all add: mobius_case_def heart_case_def galaxy_case_def dna_case_def
      klein_case_def trefoil_case_def clifford_case_def hourglass_case_def warp_case_def
      flower_case_def lissajous_case_def default_case_def Let_def)
  done

lemma particle_returns:
  assumes "unit_rng rnd" and "i < count"
  shows "\<not> isl (fst (particle shape count rnd n i))"
  using assms by (simp add: particle_switch switch_shape_returns)

lemma generateParticles_returns:
  assumes "unit_rng rnd"
  shows "\<exists>buf n'. generateParticles shape count rnd n = (Inr buf, n')
           \<and> length buf = 3 * count"
proof -
  obtain buf n' where g: "generateParticles shape count rnd n = (Inr buf, n')"
    using generateParticles_total [of count shape rnd n] particle_returns [OF assms]
    by blast
  then show ?thesis using generateParticles_points(1) [OF g] by simp
qed

section \<open>Lorenz and Rossler: every point is integrated on its own\<close>

lemma lorenz_loop_trajectory:
  "lorenz_loop k s = trajectory (lorenz_field 10 28 (8 / 3)) 0.003 k s"
proof (induction k arbitrary: s)
  case 0
  show ?case by (simp add: trajectory_def)
next
  case (Suc k)
  obtain x y z where s: "s = (x, y, z)" by (cases s)
  have "lorenz_loop (Suc k) s
      = lorenz_loop k (euler_step (lorenz_field 10 28 (8 / 3)) 0.003 s)"
    unfolding s by (simp add: euler_step_def lorenz_field_def Let_def algebra_simps)
  then show ?case using Suc.IH by (simp add: trajectory_def funpow_swap1)
qed

lemma rossler_loop_trajectory:
  "rossler_loop k s = trajectory (rossler_field 0.2 0.2 5.7) 0.01 k s"
proof (induction k arbitrary: s)
  case 0
  show ?case by (simp add: trajectory_def)
next
  case (Suc k)
  obtain x y z where s: "s = (x, y, z)" by (cases s)
  have "rossler_loop (Suc k) s
      = rossler_loop k (euler_step (rossler_field 0.2 0.2 5.7) 0.01 s)"
    unfolding s by (simp add: euler_step_def rossler_field_def Let_def algebra_simps)
  then show ?case using Suc.IH by (simp add: trajectory_def funpow_swap1)
qed

lemma rossler_case_point: "rossler_case i = Inr (rossler_point i)"
  by (simp add: rossler_case_def rossler_point_def rossler_loop_trajectory Let_def
      split: prod.split)

lemma lorenz_case_point:
  "i mod 100 \<noteq> 0 \<Longrightarrow> lorenz_case i rnd n = (Inr (lorenz_point i), n)"
  by (simp add: lorenz_case_def lorenz_point_def lorenz_loop_trajectory Let_def
      split: prod.split)

text \<open>The value of the loop body at index \<open>i\<close>, for both shapes, is a function of \<open>i\<close>
  alone.\<close>

lemma attractor_particle:
  assumes "shape \<in> {Lorenz, Rossler}" and "i < count"
  shows "fst (particle shape count rnd m i) =
     Inr (if shape = Rossler then rossler_point i
          else if i mod 100 = 0 then (0, 0, 0) else lorenz_point i)"
proof -
  have "Lorenz \<noteq> Rossler" by (simp add: ShapeType_defs)
  then show ?thesis
    using assms
    by (auto simp: particle_switch switch_shape_Lorenz switch_shape_Rossler
        rossler_case_point lorenz_case_point lorenz_case_origin)
qed

lemma attractor_run:
  assumes s: "shape \<in> {Lorenz, Rossler}"
  shows "\<exists>buf k. generateParticles shape count rnd n = (Inr buf, k) \<and>
     (\<forall>i < count. point_of buf i =
        stored (if shape = Rossler then rossler_point i
                else if i mod 100 = 0 then (0, 0, 0) else lorenz_point i))"
proof -
  have "\<not> isl (fst (particle shape count rnd m i))" if "i < count" for i m
    using attractor_particle [OF s that, of rnd m] by simp
  then obtain buf k where g: "generateParticles shape count rnd n = (Inr buf, k)"
    using generateParticles_total [of count shape rnd n] by blast
  have "point_of buf i =
        stored (if shape = Rossler then rossler_point i
                else if i mod 100 = 0 then (0, 0, 0) else lorenz_point i)" if i: "i < count" for i
  proof -
    obtain v m m' where "particle shape count rnd m i = (Inr v, m')"
      and p: "point_of buf i = stored v"
      using generateParticles_points(3) [OF g i] by blast
    then have "v = (if shape = Rossler then rossler_point i
                else if i mod 100 = 0 then (0, 0, 0) else lorenz_point i)"
      using attractor_particle [OF s i, of rnd m] by simp
    then show ?thesis using p by simp
  qed
  then show ?thesis using g by blast
qed

text \<open>
  Away from the Lorenz indices that are multiples of 100, point \<open>i\<close> of the buffer does not
  depend on the other points: it is the same in every run that has a point \<open>i\<close>, whatever
  the count and the random sequence, and it is the stored end of a trajectory integrated
  from the seed \<open>(1, 1, 1)\<close> for a number of steps given by the index, with \<open>sigma = 10\<close>,
  \<open>rho = 28\<close>, \<open>beta = 8/3\<close> and \<open>a = b = 0.2\<close>, \<open>c = 5.7\<close>.
\<close>

lemma attractor_points_integrated:
  assumes "shape = Rossler \<or> shape = Lorenz \<and> i mod 100 \<noteq> 0"
    and "i < count" and "i < count'"
  shows "\<exists>buf k buf' k'.
     generateParticles shape count rnd n = (Inr buf, k) \<and>
     generateParticles shape count' rnd' n' = (Inr buf', k') \<and>
     point_of buf i = point_of buf' i \<and>
     point_of buf i = stored (if shape = Rossler then rossler_point i else lorenz_point i)"
proof -
  have s: "shape \<in> {Lorenz, Rossler}" using assms(1) by auto
  have ne: "Lorenz \<noteq> Rossler" by (simp add: ShapeType_defs)
  obtain buf k where g: "generateParticles shape count rnd n = (Inr buf, k)"
    and p: "\<forall>i < count. point_of buf i =
        stored (if shape = Rossler then rossler_point i
                else if i mod 100 = 0 then (0, 0, 0) else lorenz_point i)"
    using attractor_run [OF s, of count rnd n] by blast
  obtain buf' k' where g': "generateParticles shape count' rnd' n' = (Inr buf', k')"
    and p': "\<forall>i < count'. point_of buf' i =
        stored (if shape = Rossler then rossler_point i
                else if i mod 100 = 0 then (0, 0, 0) else lorenz_point i)"
    using attractor_run [OF s, of count' rnd' n'] by blast
  have "point_of buf i = point_of buf' i"
    using p [rule_format, OF assms(2)] p' [rule_format, OF assms(3)] by simp
  moreover have "point_of buf i
      = stored (if shape = Rossler then rossler_point i else lorenz_point i)"
    using p [rule_format, OF assms(2)] assms(1) ne by auto
  ultimately show ?thesis using g g' by blast
qed

text \<open>The first 50 Euler steps from \<open>(1, 1, 1)\<close> stay in the octant \<open>x > 0\<close>, \<open>y > 0\<close>,
  \<open>0 \<le> z < 28\<close>: bounds that grow with the step number.\<close>

lemma lorenz_step_early:
  fixes x y z Q Z :: real
  assumes x: "0 < x" "x \<le> Q" and y: "0 < y" "y \<le> 2 * Q" and z: "0 \<le> z" "z \<le> Z"
    and Z: "Z \<le> 17" and Q: "Q * Q \<le> 51"
  defines "x1 \<equiv> x + 10 * (y - x) * 0.003"
    and "y1 \<equiv> y + (x * (28 - z) - y) * 0.003"
    and "z1 \<equiv> z + (x * y - 8 / 3 * z) * 0.003"
  shows "0 < x1 \<and> x1 \<le> 26 / 25 * Q \<and> 0 < y1 \<and> y1 \<le> 2 * (26 / 25 * Q)
     \<and> 0 \<le> z1 \<and> z1 \<le> Z + 153 / 500"
proof -
  define w where "w = x * (28 - z)"
  define p where "p = x * y"
  have Q0: "0 < Q" using x by linarith
  have p0: "0 < p" unfolding p_def using x y by simp
  have "p \<le> Q * (2 * Q)" unfolding p_def using x y by (intro mult_mono) simp_all
  then have p1: "p \<le> 102" using Q by simp
  have w0: "0 < w" unfolding w_def using x z Z by simp
  have "w \<le> x * 28" unfolding w_def using x z by (intro mult_left_mono) simp_all
  moreover have "x * 28 \<le> 28 * Q" using x by simp
  ultimately have w1: "w \<le> 28 * Q" by linarith
  have ex: "x1 = 97 / 100 * x + 3 / 100 * y" unfolding x1_def by (simp add: field_simps)
  have ey: "y1 = 997 / 1000 * y + 3 / 1000 * w"
    unfolding y1_def w_def [symmetric] by (simp add: field_simps)
  have ez: "z1 = 992 / 1000 * z + 3 / 1000 * p"
    unfolding z1_def p_def [symmetric] by (simp add: field_simps)
  have "0 < x1" unfolding ex using x y by linarith
  moreover have "x1 \<le> 26 / 25 * Q" unfolding ex using x y by linarith
  moreover have "0 < y1" unfolding ey using y w0 by linarith
  moreover have "y1 \<le> 2 * (26 / 25 * Q)" unfolding ey using y w1 Q0 by linarith
  moreover have "0 \<le> z1" unfolding ez using z p0 by linarith
  moreover have "z1 \<le> Z + 153 / 500" unfolding ez using z p1 by linarith
  ultimately show ?thesis by simp
qed

lemma lorenz_loop_early:
  fixes x y z :: real
  assumes "m + k \<le> 50" and "0 < x" "x \<le> (26 / 25) ^ m" and "0 < y" "y \<le> 2 * (26 / 25) ^ m"
    and "0 \<le> z" "z \<le> 1 + real m * (153 / 500)"
  shows "case lorenz_loop k (x, y, z) of
     (a, b, c) \<Rightarrow> 0 < a \<and> 0 \<le> c \<and> c \<le> 1 + real (m + k) * (153 / 500)"
  using assms
proof (induction k arbitrary: m x y z)
  case 0
  then show ?case by simp
next
  case (Suc k)
  define Q :: real where "Q = (26 / 25) ^ m"
  define Z :: real where "Z = 1 + real m * (153 / 500)"
  have m: "m \<le> 49" using Suc.prems(1) by simp
  then have "real m \<le> 49" by simp
  then have Z: "Z \<le> 17" unfolding Z_def by simp
  have "Q * Q = (26 / 25) ^ (m + m)" unfolding Q_def by (simp add: power_add)
  also have "\<dots> \<le> (26 / 25 :: real) ^ 100" using m by (intro power_increasing) simp_all
  also have "\<dots> \<le> 51" by (simp add: power_divide)
  finally have Q: "Q * Q \<le> 51" .
  define x1 where "x1 = x + 10 * (y - x) * 0.003"
  define y1 where "y1 = y + (x * (28 - z) - y) * 0.003"
  define z1 where "z1 = z + (x * y - 8 / 3 * z) * 0.003"
  have s: "0 < x1 \<and> x1 \<le> 26 / 25 * Q \<and> 0 < y1 \<and> y1 \<le> 2 * (26 / 25 * Q)
     \<and> 0 \<le> z1 \<and> z1 \<le> Z + 153 / 500"
    unfolding x1_def y1_def z1_def
    using Suc.prems(2-7) Z Q unfolding Q_def [symmetric] Z_def [symmetric]
    by (intro lorenz_step_early) simp_all
  have Z': "Z + 153 / 500 = 1 + real (Suc m) * (153 / 500)"
    unfolding Z_def by (simp add: field_simps)
  have Q': "26 / 25 * Q = (26 / 25) ^ Suc m" unfolding Q_def by simp
  have "case lorenz_loop k (x1, y1, z1) of
     (a, b, c) \<Rightarrow> 0 < a \<and> 0 \<le> c \<and> c \<le> 1 + real (Suc m + k) * (153 / 500)"
    using s unfolding Z' Q' by (intro Suc.IH [of "Suc m"]) (use Suc.prems(1) in simp_all)
  then show ?case by (simp add: Let_def x1_def y1_def z1_def)
qed

lemma stored_lorenz_point_0_not_origin: "stored (lorenz_point 0) \<noteq> (0, 0, 0)"
proof -
  obtain a b c where t: "lorenz_loop 50 (1, 1, 1) = (a, b, c)"
    by (cases "lorenz_loop 50 (1, 1, 1)")
  have "case lorenz_loop 50 (1, 1, 1) of
     (a, b, c) \<Rightarrow> 0 < a \<and> 0 \<le> c \<and> c \<le> 1 + real (0 + 50) * (153 / 500)"
    by (rule lorenz_loop_early) simp_all
  then have c: "0 \<le> c" "c \<le> 17" using t by simp_all
  then have "\<bar>c - 25\<bar> \<le> pow2 5" by (simp add: pow2_def)
  then have "\<bar>Math_fround (c - 25) - (c - 25)\<bar> \<le> pow2 (5 - 25)"
    by (rule Math_fround_error) simp
  moreover have "pow2 (5 - 25) \<le> 1" by (simp add: pow2_def)
  ultimately have "Math_fround (c - 25) < 0" using c by linarith
  moreover have "lorenz_point 0 = (a, b, c - 25)"
    unfolding lorenz_point_def lorenz_loop_trajectory [symmetric] using t by simp
  ultimately show ?thesis by (simp add: stored_def)
qed

text \<open>
  C9. The claim fails at the Lorenz points whose index is a multiple of 100. The only
  point of generateParticles(Lorenz, 1) is the origin: the branch draws three numbers
  into \<open>lx\<close>, \<open>ly\<close>, \<open>lz\<close>, never reads them and integrates nothing, while the stored end of
  the trajectory of 50 steps from the seed, which the other branch would give, is not
  the origin.
\<close>

theorem lorenz_point_0_not_integrated:
  "generateParticles Lorenz 1 (rnd_const 0) 0 = (Inr [0, 0, 0], 3) \<and>
   stored (lorenz_point 0) \<noteq> (0, 0, 0)"
  using stored_lorenz_point_0_not_origin
  by (simp add: generateParticles_1 switch_shape_Lorenz lorenz_case_origin)

section \<open>One tick in closed form\<close>

lemma lerp_component_same: "lerp_component c c = c"
  by (simp add: lerp_component_def)

lemma length_lerp_buffer: "length (lerp_buffer i tgt cur) = length cur"
  by (simp add: lerp_buffer_def)

lemma nth_lerp_buffer:
  "j < length cur \<Longrightarrow>
     lerp_buffer i tgt cur ! j =
       (if i \<le> j \<and> j < PARTICLE_COUNT * 3 \<and> j < length tgt
        then lerp_component (tgt ! j) (cur ! j) else cur ! j)"
  by (simp add: lerp_buffer_def)

lemma lerp_buffer_done: "PARTICLE_COUNT * 3 \<le> i \<Longrightarrow> lerp_buffer i tgt cur = cur"
  by (intro nth_equalityI) (simp_all add: length_lerp_buffer nth_lerp_buffer)

lemma lerp_buffer_same: "lerp_buffer i cur cur = cur"
  by (intro nth_equalityI) (simp_all add: length_lerp_buffer nth_lerp_buffer lerp_component_same)

lemma lerp_at_distinct:
  assumes "targetRef \<noteq> posRef"
  shows "fst (lerp_at targetRef posRef i (h, f)) =
     h(posRef := (h posRef)[i := if i < length (h targetRef)
                                  then lerp_component (h targetRef ! i) (h posRef ! i)
                                  else h posRef ! i])"
  using assms by (auto simp: lerp_at_def lerp_component_def Let_def list_update_beyond)

lemma lerp_buffer_step:
  assumes "i < PARTICLE_COUNT * 3"
  shows "lerp_buffer (Suc i) tgt
           (cur[i := if i < length tgt then lerp_component (tgt ! i) (cur ! i) else cur ! i])
         = lerp_buffer i tgt cur"
proof (intro nth_equalityI)
  show "length (lerp_buffer (Suc i) tgt
           (cur[i := if i < length tgt then lerp_component (tgt ! i) (cur ! i) else cur ! i]))
        = length (lerp_buffer i tgt cur)"
    by (simp add: length_lerp_buffer)
next
  fix j
  assume "j < length (lerp_buffer (Suc i) tgt
           (cur[i := if i < length tgt then lerp_component (tgt ! i) (cur ! i) else cur ! i]))"
  then have j: "j < length cur" by (simp add: length_lerp_buffer)
  show "lerp_buffer (Suc i) tgt
           (cur[i := if i < length tgt then lerp_component (tgt ! i) (cur ! i) else cur ! i]) ! j
        = lerp_buffer i tgt cur ! j"
  proof (cases "j = i")
    case True
    then show ?thesis using j assms by (simp add: nth_lerp_buffer)
  next
    case False
    then have "(Suc i \<le> j) = (i \<le> j)" by auto
    then show ?thesis using j False by (simp add: nth_lerp_buffer)
  qed
qed

lemma lerp_loop_distinct:
  assumes "targetRef \<noteq> posRef"
  shows "fst (lerp_loop targetRef posRef i hb) =
     (fst hb)(posRef := lerp_buffer i (fst hb targetRef) (fst hb posRef))"
  using assms
proof (induction targetRef posRef i hb rule: lerp_loop.induct)
  case (1 targetRef posRef i hb)
  obtain h f where hb: "hb = (h, f)" by (cases hb)
  show ?case
  proof (cases "i < PARTICLE_COUNT * 3")
    case False
    then show ?thesis by (simp add: lerp_loop.simps [of _ _ i] lerp_buffer_done)
  next
    case True
    define v where "v = (if i < length (h targetRef)
        then lerp_component (h targetRef ! i) (h posRef ! i) else h posRef ! i)"
    define h' where "h' = h(posRef := (h posRef)[i := v])"
    have a: "fst (lerp_at targetRef posRef i hb) = h'"
      unfolding hb h'_def v_def using "1.prems" by (rule lerp_at_distinct)
    have "fst (lerp_loop targetRef posRef i hb)
        = fst (lerp_loop targetRef posRef (Suc i) (lerp_at targetRef posRef i hb))"
      using True by (simp add: lerp_loop.simps [of _ _ i])
    also have "\<dots> = h'(posRef := lerp_buffer (Suc i) (h' targetRef) (h' posRef))"
      using "1.IH" [OF True "1.prems"] unfolding a .
    also have "\<dots> = h(posRef := lerp_buffer (Suc i) (h targetRef) ((h posRef)[i := v]))"
      using "1.prems" by (simp add: h'_def)
    also have "lerp_buffer (Suc i) (h targetRef) ((h posRef)[i := v])
        = lerp_buffer i (h targetRef) (h posRef)"
      unfolding v_def using True by (rule lerp_buffer_step)
    finally show ?thesis by (simp add: hb)
  qed
qed

lemma lerp_at_alias: "lerp_at r r i hb = hb"
  by (cases hb) (simp add: lerp_at_def)

lemma lerp_loop_same:
  "targetRef = posRef \<Longrightarrow> lerp_loop targetRef posRef i hb = hb"
proof (induction targetRef posRef i hb rule: lerp_loop.induct)
  case (1 targetRef posRef i hb)
  then show ?case by (simp add: lerp_loop.simps [of _ _ i] lerp_at_alias)
qed

lemma lerp_loop_alias: "lerp_loop r r i hb = hb"
  by (simp add: lerp_loop_same)

text \<open>The heap after a tick, whether or not the two references are the same array.\<close>

lemma useFrame_heap:
  assumes "pointsRef s" and "positions s = Some p" and "targetPositions s = Some q"
  shows "heap (useFrame s) = (heap s)(p := lerp_buffer 0 (heap s q) (heap s p))"
proof (cases "q = p")
  case True
  then show ?thesis
    using assms by (simp add: useFrame_def lerp_loop_alias lerp_buffer_same)
next
  case False
  obtain h f where l: "lerp_loop q p 0 (heap s, False) = (h, f)"
    by (cases "lerp_loop q p 0 (heap s, False)")
  have "h = (heap s)(p := lerp_buffer 0 (heap s q) (heap s p))"
    using lerp_loop_distinct [OF False, of 0 "(heap s, False)"] l by simp
  then show ?thesis using assms l by (simp add: useFrame_def)
qed

lemma useFrame_refs:
  "positions (useFrame s) = positions s" "targetPositions (useFrame s) = targetPositions s"
  "pointsRef (useFrame s) = pointsRef s" "next_ref (useFrame s) = next_ref s"
  by (simp_all add: useFrame_def split: option.split prod.split)

lemma useFrame_current:
  assumes "pointsRef s" and "positions s = Some p" and "targetPositions s = Some q"
  shows "current (useFrame s) = lerp_buffer 0 (target s) (current s)"
  using assms by (simp add: current_def target_def useFrame_refs useFrame_heap)

lemma useFrame_target:
  assumes "pointsRef s" and "positions s = Some p" and "targetPositions s = Some q"
  shows "target (useFrame s) = target s"
proof (cases "q = p")
  case True
  then show ?thesis
    using assms by (simp add: target_def useFrame_refs useFrame_heap lerp_buffer_same)
next
  case False
  then show ?thesis using assms by (simp add: target_def useFrame_refs useFrame_heap)
qed

lemma morph_state_simps:
  "pointsRef (morph_state cur tgt)" "positions (morph_state cur tgt) = Some 0"
  "targetPositions (morph_state cur tgt) = Some 1" "next_ref (morph_state cur tgt) = 2"
  "current (morph_state cur tgt) = cur" "target (morph_state cur tgt) = tgt"
  by (simp_all add: morph_state_def current_def target_def)

section \<open>What one tick changes\<close>

text \<open>
  C7. A tick changes only components of the current buffer whose distance to the target
  component exceeds 0.001; a component within 0.001 of its target keeps its value (it is
  not set to the target); the target array, and every array other than the current one,
  is left as it was.
\<close>

theorem useFrame_changes_only_far_components:
  assumes "pointsRef s" and "positions s = Some p" and "targetPositions s = Some q"
  shows "heap (useFrame s) q = heap s q \<and>
     (\<forall>r. r \<noteq> p \<longrightarrow> heap (useFrame s) r = heap s r) \<and>
     length (current (useFrame s)) = length (current s) \<and>
     (\<forall>i < length (current s). current (useFrame s) ! i \<noteq> current s ! i \<longrightarrow>
        i < length (target s) \<and> \<bar>target s ! i - current s ! i\<bar> > 0.001) \<and>
     (\<forall>i < length (current s). \<bar>target s ! i - current s ! i\<bar> \<le> 0.001 \<longrightarrow>
        current (useFrame s) ! i = current s ! i)"
proof -
  have c: "current (useFrame s) = lerp_buffer 0 (target s) (current s)"
    using assms by (rule useFrame_current)
  have "heap (useFrame s) q = heap s q"
    using useFrame_target [OF assms] assms by (simp add: target_def useFrame_refs)
  moreover have "\<forall>r. r \<noteq> p \<longrightarrow> heap (useFrame s) r = heap s r"
    by (simp add: useFrame_heap [OF assms])
  moreover have "length (current (useFrame s)) = length (current s)"
    by (simp add: c length_lerp_buffer)
  moreover have "\<forall>i < length (current s). current (useFrame s) ! i \<noteq> current s ! i \<longrightarrow>
        i < length (target s) \<and> \<bar>target s ! i - current s ! i\<bar> > 0.001"
    by (auto simp: c nth_lerp_buffer lerp_component_def split: if_splits)
  moreover have "\<forall>i < length (current s). \<bar>target s ! i - current s ! i\<bar> \<le> 0.001 \<longrightarrow>
        current (useFrame s) ! i = current s ! i"
    by (auto simp: c nth_lerp_buffer lerp_component_def)
  ultimately show ?thesis by blast
qed

theorem useFrame_changes_only_far_components_witness:
  "pointsRef (morph_state [0, 5] [1 / 2000, 6]) \<and>
   positions (morph_state [0, 5] [1 / 2000, 6]) = Some 0 \<and>
   targetPositions (morph_state [0, 5] [1 / 2000, 6]) = Some 1 \<and>
   heap (useFrame (morph_state [0, 5] [1 / 2000, 6])) 1 = [1 / 2000, 6] \<and>
   length (current (useFrame (morph_state [0, 5] [1 / 2000, 6]))) = 2 \<and>
   current (useFrame (morph_state [0, 5] [1 / 2000, 6])) ! 0 = 0"
  using useFrame_changes_only_far_components [of "morph_state [0, 5] [1 / 2000, 6]" 0 1]
  by (simp add: morph_state_simps) (simp add: morph_state_def)

section \<open>Retargeting\<close>

lemma setTargetPositions_simps:
  "positions (setTargetPositions newTarget s) = positions s"
  "pointsRef (setTargetPositions newTarget s) = pointsRef s"
  "targetPositions (setTargetPositions newTarget s) = Some (next_ref s)"
  "target (setTargetPositions newTarget s) = newTarget"
  by (simp_all add: setTargetPositions_def target_def)

lemma shape_change_effect_retargets:
  assumes "shape_change_effect currentShape rnd n s = (Inr s', n')"
  shows "\<exists>newTarget. s' = setTargetPositions newTarget s
           \<and> length newTarget = 3 * PARTICLE_COUNT"
proof -
  obtain r k where g: "generateParticles currentShape PARTICLE_COUNT rnd n = (r, k)"
    by (cases "generateParticles currentShape PARTICLE_COUNT rnd n")
  then obtain newTarget where r: "r = Inr newTarget"
    using assms by (cases r) (simp_all add: shape_change_effect_def)
  have "s' = setTargetPositions newTarget s"
    using assms g r by (simp add: shape_change_effect_def)
  moreover have "length newTarget = 3 * PARTICLE_COUNT"
    using generateParticles_points(1) [of currentShape PARTICLE_COUNT rnd n newTarget k] g r
    by simp
  ultimately show ?thesis by blast
qed

lemma setTargetPositions_current:
  "positions s = Some p \<Longrightarrow> p < next_ref s \<Longrightarrow>
     current (setTargetPositions newTarget s) = current s"
  by (simp add: setTargetPositions_def current_def)

lemma lerp_component_step:
  "\<bar>lerp_component t c - c\<bar>
     \<le> 0.05 * \<bar>t - c\<bar> + max \<bar>c\<bar> \<bar>t\<bar> / 2 ^ 24 + pow2 (- 150)"
proof -
  have p: "0 \<le> pow2 (- 150)" by (rule less_imp_le [OF pow2_pos])
  have m: "0 \<le> max \<bar>c\<bar> \<bar>t\<bar> / 2 ^ 24" by simp
  show ?thesis
  proof (cases "\<bar>t - c\<bar> > 0.001")
    case False
    have "0 \<le> 0.05 * \<bar>t - c\<bar>" by simp
    then show ?thesis using False p m by (simp add: lerp_component_def)
  next
    case True
    define y where "y = c + (t - c) * lerpFactor"
    define M where "M = max \<bar>c\<bar> \<bar>t\<bar> / 2 ^ 24"
    define Y where "Y = \<bar>y\<bar> / 2 ^ 24"
    define P where "P = pow2 (- 150)"
    have l: "lerp_component t c = Math_fround y"
      using True by (simp add: lerp_component_def y_def)
    have y: "y = 19 / 20 * c + 1 / 20 * t" by (simp add: y_def lerpFactor_def field_simps)
    have "\<bar>y\<bar> \<le> 19 / 20 * \<bar>c\<bar> + 1 / 20 * \<bar>t\<bar>" unfolding y by linarith
    then have "\<bar>y\<bar> \<le> max \<bar>c\<bar> \<bar>t\<bar>" by linarith
    then have "Y \<le> M" unfolding Y_def M_def by (rule divide_right_mono) simp
    moreover have "\<bar>Math_fround y - y\<bar> \<le> Y + P"
      unfolding Y_def P_def by (rule Math_fround_relative_error)
    moreover have "y - c = 1 / 20 * (t - c)" unfolding y by (simp add: field_simps)
    then have "\<bar>y - c\<bar> = 1 / 20 * \<bar>t - c\<bar>" by (simp only: abs_mult)
    ultimately have "\<bar>Math_fround y - c\<bar> \<le> 1 / 20 * \<bar>t - c\<bar> + M + P" by linarith
    then show ?thesis unfolding l M_def P_def by simp
  qed
qed

text \<open>
  C8, as amended. Replacing the target does not touch the current buffer, and on the
  next tick each component of the current buffer moves by at most 0.05 times its
  distance to the new target, up to the rounding of the store: at most \<open>2\<^sup>-\<^sup>2\<^sup>4\<close> of the
  larger of the magnitudes of the component and of its new target, plus \<open>2\<^sup>-\<^sup>1\<^sup>5\<^sup>0\<close>.
\<close>

theorem retarget_step_bounded:
  assumes "pointsRef s" and "positions s = Some p" and "p < next_ref s"
  shows "positions (setTargetPositions newTarget s) = Some p \<and>
     current (setTargetPositions newTarget s) = current s \<and>
     length (current (useFrame (setTargetPositions newTarget s))) = length (current s) \<and>
     (\<forall>i < length (current s).
        \<bar>current (useFrame (setTargetPositions newTarget s)) ! i - current s ! i\<bar>
          \<le> 0.05 * \<bar>newTarget ! i - current s ! i\<bar>
            + max \<bar>current s ! i\<bar> \<bar>newTarget ! i\<bar> / 2 ^ 24 + pow2 (- 150))"
proof -
  let ?s = "setTargetPositions newTarget s"
  have cs: "current ?s = current s" using assms(2,3) by (rule setTargetPositions_current)
  have "current (useFrame ?s) = lerp_buffer 0 (target ?s) (current ?s)"
    using assms by (intro useFrame_current) (simp_all add: setTargetPositions_simps)
  then have c: "current (useFrame ?s) = lerp_buffer 0 newTarget (current s)"
    by (simp add: cs setTargetPositions_simps)
  have "\<bar>current (useFrame ?s) ! i - current s ! i\<bar>
      \<le> 0.05 * \<bar>newTarget ! i - current s ! i\<bar>
            + max \<bar>current s ! i\<bar> \<bar>newTarget ! i\<bar> / 2 ^ 24 + pow2 (- 150)"
    if i: "i < length (current s)" for i
  proof (cases "i < PARTICLE_COUNT * 3 \<and> i < length newTarget")
    case True
    then have "current (useFrame ?s) ! i = lerp_component (newTarget ! i) (current s ! i)"
      using i by (simp add: c nth_lerp_buffer)
    then show ?thesis using lerp_component_step [of "newTarget ! i" "current s ! i"] by simp
  next
    case False
    then have "current (useFrame ?s) ! i = current s ! i"
      using i by (auto simp: c nth_lerp_buffer)
    moreover have "0 \<le> pow2 (- 150)" by (rule less_imp_le [OF pow2_pos])
    moreover have "0 \<le> max \<bar>current s ! i\<bar> \<bar>newTarget ! i\<bar> / 2 ^ 24" by simp
    moreover have "0 \<le> 0.05 * \<bar>newTarget ! i - current s ! i\<bar>" by simp
    ultimately show ?thesis by simp
  qed
  moreover have "positions ?s = Some p" using assms by (simp add: setTargetPositions_simps)
  moreover have "length (current (useFrame ?s)) = length (current s)"
    by (simp add: c length_lerp_buffer)
  ultimately show ?thesis using cs by blast
qed

theorem retarget_step_bounded_witness:
  "pointsRef (morph_state [0] [1]) \<and> positions (morph_state [0] [1]) = Some 0 \<and>
   0 < next_ref (morph_state [0] [1]) \<and>
   current (setTargetPositions [10] (morph_state [0] [1])) = [0] \<and>
   \<bar>current (useFrame (setTargetPositions [10] (morph_state [0] [1]))) ! 0 - 0\<bar>
      \<le> 0.05 * \<bar>10 - 0\<bar> + max \<bar>0\<bar> \<bar>10\<bar> / 2 ^ 24 + pow2 (- 150)"
proof -
  let ?s = "morph_state [0] [1]"
  have h: "pointsRef ?s" "positions ?s = Some 0" "0 < next_ref ?s"
    by (simp_all add: morph_state_simps)
  note r = retarget_step_bounded [OF h, of "[10]"]
  have c: "current (setTargetPositions [10] ?s) = [0]" using r by (simp add: morph_state_simps)
  have "\<forall>i < length (current ?s).
        \<bar>current (useFrame (setTargetPositions [10] ?s)) ! i - current ?s ! i\<bar>
          \<le> 0.05 * \<bar>[10] ! i - current ?s ! i\<bar>
            + max \<bar>current ?s ! i\<bar> \<bar>[10] ! i\<bar> / 2 ^ 24 + pow2 (- 150)"
    using r by blast
  then have "\<bar>current (useFrame (setTargetPositions [10] ?s)) ! 0 - [0] ! 0\<bar>
          \<le> 0.05 * \<bar>[10::real] ! 0 - [0] ! 0\<bar>
            + max \<bar>[0::real] ! 0\<bar> \<bar>[10] ! 0\<bar> / 2 ^ 24 + pow2 (- 150)"
    unfolding morph_state_simps by (rule allE [of _ 0]) simp
  then show ?thesis using h c by simp
qed

text \<open>
  C8 as stated fails: the current buffer \<open>[0]\<close> is on its way to the target \<open>[1]\<close> when
  the target is replaced by \<open>[10]\<close>; the next tick moves the component by \<open>1/2\<close>, more
  than 0.05 times its distance 1 to the old target.
\<close>

theorem retarget_step_exceeds_old_distance:
  "current (useFrame (setTargetPositions [10] (morph_state [0] [1]))) = [1 / 2] \<and>
   \<not> \<bar>current (useFrame (setTargetPositions [10] (morph_state [0] [1]))) ! 0
        - current (morph_state [0] [1]) ! 0\<bar>
      \<le> 0.05 * \<bar>target (morph_state [0] [1]) ! 0 - current (morph_state [0] [1]) ! 0\<bar>"
proof -
  let ?s = "setTargetPositions [10] (morph_state [0] [1])"
  have "current (useFrame ?s) = lerp_buffer 0 (target ?s) (current ?s)"
    by (rule useFrame_current [of _ 0 2])
      (simp_all add: setTargetPositions_simps morph_state_simps)
  also have "\<dots> = lerp_buffer 0 [10] [0]"
    by (simp add: setTargetPositions_simps setTargetPositions_current [of _ 0]
        morph_state_simps)
  also have "\<dots> = [1 / 2]"
    by (simp add: lerp_buffer_def lerp_component_def lerpFactor_def PARTICLE_COUNT_def
        Math_fround_halves)
  finally show ?thesis by (simp add: morph_state_simps)
qed

section \<open>Convergence of the morph\<close>

lemma lerp_component_near: "\<not> \<bar>t - c\<bar> > 0.001 \<Longrightarrow> lerp_component t c = c"
  by (simp add: lerp_component_def)

text \<open>Below magnitude 1024 the spacing of float32 is at most \<open>2\<^sup>-\<^sup>1\<^sup>4\<close>, less than the
  smallest step \<open>0.05 * 0.001\<close> the guard lets through: the stored value lies strictly
  between the old value and the target, and at least \<open>10\<^sup>-\<^sup>5\<close> closer to the target.\<close>

lemma lerp_component_far:
  assumes far: "\<bar>t - c\<bar> > 0.001" and c: "\<bar>c\<bar> \<le> 1024" and t: "\<bar>t\<bar> \<le> 1024"
  shows "\<bar>t - lerp_component t c\<bar> \<le> \<bar>t - c\<bar> - 1 / 100000"
    and "\<bar>lerp_component t c\<bar> \<le> 1024"
proof -
  define y where "y = c + (t - c) * lerpFactor"
  define r where "r = Math_fround y"
  have l: "lerp_component t c = r"
    using far by (simp add: lerp_component_def y_def r_def)
  have y: "y = 19 / 20 * c + 1 / 20 * t" by (simp add: y_def lerpFactor_def field_simps)
  have "\<bar>y\<bar> \<le> 1024" unfolding y using c t by linarith
  then have "\<bar>y\<bar> \<le> pow2 10" by (simp add: pow2_def)
  then have "\<bar>Math_fround y - y\<bar> \<le> pow2 (10 - 25)" by (rule Math_fround_error) simp
  then have e: "\<bar>r - y\<bar> \<le> 1 / 32768" by (simp add: pow2_def r_def)
  have f: "1 / 1000 < \<bar>t - c\<bar>" using far by simp
  consider "1 / 1000 < t - c" | "1 / 1000 < c - t" using f by linarith
  then have "\<bar>t - r\<bar> \<le> \<bar>t - c\<bar> - 1 / 100000 \<and> \<bar>r\<bar> \<le> 1024"
  proof cases
    case 1
    have "c < r" "r < t" using 1 e unfolding y by linarith+
    then show ?thesis using 1 e c t unfolding y by linarith
  next
    case 2
    have "t < r" "r < c" using 2 e unfolding y by linarith+
    then show ?thesis using 2 e c t unfolding y by linarith
  qed
  then show "\<bar>t - lerp_component t c\<bar> \<le> \<bar>t - c\<bar> - 1 / 100000"
    and "\<bar>lerp_component t c\<bar> \<le> 1024"
    unfolding l by simp_all
qed

lemma lerp_component_closer:
  assumes "\<bar>c\<bar> \<le> 1024" and "\<bar>t\<bar> \<le> 1024"
  shows "\<bar>t - lerp_component t c\<bar> \<le> \<bar>t - c\<bar>"
proof (cases "\<bar>t - c\<bar> > 0.001")
  case True
  show ?thesis using lerp_component_far(1) [OF True assms] by linarith
next
  case False
  then show ?thesis using lerp_component_near [OF False] by simp
qed

lemma lerp_component_strictly_closer:
  assumes "\<bar>t - c\<bar> > 0.001" and "\<bar>c\<bar> \<le> 1024" and "\<bar>t\<bar> \<le> 1024"
  shows "\<bar>t - lerp_component t c\<bar> < \<bar>t - c\<bar>"
  using lerp_component_far(1) [OF assms] by linarith

lemma lerp_component_bounded:
  assumes "\<bar>c\<bar> \<le> 1024" and "\<bar>t\<bar> \<le> 1024"
  shows "\<bar>lerp_component t c\<bar> \<le> 1024"
proof (cases "\<bar>t - c\<bar> > 0.001")
  case True
  show ?thesis using True assms by (rule lerp_component_far(2))
next
  case False
  then show ?thesis using lerp_component_near [OF False] assms by simp
qed

lemma lerp_component_dyadic:
  assumes "\<exists>m k. c = of_int m * pow2 k"
  shows "\<exists>m k. lerp_component t c = of_int m * pow2 k"
  using assms Math_fround_dyadic [of "c + (t - c) * lerpFactor"]
  by (simp add: lerp_component_def)

lemma float32_buffers_nth:
  assumes "float32_buffers b s"
  shows "i < length (current s) \<Longrightarrow> float32 (current s ! i) \<and> \<bar>current s ! i\<bar> \<le> b"
    and "i < length (target s) \<Longrightarrow> float32 (target s ! i) \<and> \<bar>target s ! i\<bar> \<le> b"
  using assms by (simp_all add: float32_buffers_def list_all_length)

text \<open>The state after \<open>k\<close> ticks still refers to the same arrays, and its target is
  unchanged.\<close>

lemma funpow_useFrame:
  assumes "pointsRef s" and "positions s = Some p" and "targetPositions s = Some q"
  shows "pointsRef ((useFrame ^^ k) s) \<and> positions ((useFrame ^^ k) s) = Some p \<and>
     targetPositions ((useFrame ^^ k) s) = Some q \<and>
     target ((useFrame ^^ k) s) = target s \<and>
     length (current ((useFrame ^^ k) s)) = length (current s)"
proof (induction k)
  case 0
  show ?case using assms by simp
next
  case (Suc k)
  let ?s = "(useFrame ^^ k) s"
  have r: "pointsRef ?s" "positions ?s = Some p" "targetPositions ?s = Some q"
    using Suc by simp_all
  have "target (useFrame ?s) = target ?s" using r by (rule useFrame_target)
  moreover have "length (current (useFrame ?s)) = length (current ?s)"
    using useFrame_current [OF r] by (simp add: length_lerp_buffer)
  ultimately show ?case using Suc by (simp add: useFrame_refs)
qed

lemma tick_component:
  assumes "pointsRef s" and "positions s = Some p" and "targetPositions s = Some q"
    and "length (current s) = length (target s)"
    and "length (current s) \<le> PARTICLE_COUNT * 3" and "i < length (current s)"
  shows "current (useFrame s) ! i = lerp_component (target s ! i) (current s ! i)"
  using assms by (simp add: useFrame_current [OF assms(1-3)] nth_lerp_buffer)

lemma distance_sum_decreases:
  assumes "pointsRef s" and "positions s = Some p" and "targetPositions s = Some q"
    and "length (current s) = length (target s)"
    and "length (current s) \<le> PARTICLE_COUNT * 3"
    and b: "\<And>i. i < length (current s) \<Longrightarrow>
          \<bar>current s ! i\<bar> \<le> 1024 \<and> \<bar>target s ! i\<bar> \<le> 1024"
    and "\<exists>i < length (current s). \<bar>target s ! i - current s ! i\<bar> > 0.001"
  shows "distance_sum (useFrame s) < distance_sum s"
proof -
  let ?n = "length (current s)"
  have t: "target (useFrame s) = target s" using assms(1-3) by (rule useFrame_target)
  have l: "length (current (useFrame s)) = ?n"
    using useFrame_current [OF assms(1-3)] by (simp add: length_lerp_buffer)
  have c: "current (useFrame s) ! i = lerp_component (target s ! i) (current s ! i)"
    if "i < ?n" for i
    using assms(1-5) that by (rule tick_component)
  have "(\<Sum>i < ?n. \<bar>target s ! i - current (useFrame s) ! i\<bar>)
      < (\<Sum>i < ?n. \<bar>target s ! i - current s ! i\<bar>)"
  proof (rule sum_strict_mono_ex1)
    show "finite {..<?n}" by simp
    show "\<forall>i \<in> {..<?n}. \<bar>target s ! i - current (useFrame s) ! i\<bar>
        \<le> \<bar>target s ! i - current s ! i\<bar>"
      using b by (simp add: c lerp_component_closer)
    show "\<exists>i \<in> {..<?n}. \<bar>target s ! i - current (useFrame s) ! i\<bar>
        < \<bar>target s ! i - current s ! i\<bar>"
    proof -
      from assms(7) obtain i where i: "i < ?n" "\<bar>target s ! i - current s ! i\<bar> > 0.001"
        by blast
      have "\<bar>target s ! i - lerp_component (target s ! i) (current s ! i)\<bar>
          < \<bar>target s ! i - current s ! i\<bar>"
        using i(2) b [OF i(1)] by (intro lerp_component_strictly_closer) simp_all
      then have "\<bar>target s ! i - current (useFrame s) ! i\<bar> < \<bar>target s ! i - current s ! i\<bar>"
        by (simp only: c [OF i(1)])
      with i(1) show ?thesis by blast
    qed
  qed
  then show ?thesis by (simp add: distance_sum_def t l)
qed

text \<open>After \<open>k\<close> ticks a component still has magnitude at most 1024 and is a multiple of
  a power of two, and it is within 0.001 of its target or its distance has shrunk by
  \<open>k / 100000\<close>.\<close>

lemma component_after_ticks:
  assumes "pointsRef s" and "positions s = Some p" and "targetPositions s = Some q"
    and "length (current s) = length (target s)"
    and "length (current s) \<le> PARTICLE_COUNT * 3"
    and "float32_buffers 1024 s" and "i < length (current s)"
  shows "\<bar>current ((useFrame ^^ k) s) ! i\<bar> \<le> 1024 \<and>
     (\<exists>m j. current ((useFrame ^^ k) s) ! i = of_int m * pow2 j) \<and>
     \<bar>target s ! i - current ((useFrame ^^ k) s) ! i\<bar>
       \<le> max (1 / 1000) (\<bar>target s ! i - current s ! i\<bar> - real k / 100000)"
proof (induction k)
  case 0
  have "float32 (current s ! i) \<and> \<bar>current s ! i\<bar> \<le> 1024"
    using float32_buffers_nth(1) [OF assms(6,7)] .
  then show ?case using float32_dyadic [of "current s ! i"] by simp
next
  case (Suc k)
  let ?s = "(useFrame ^^ k) s"
  let ?t = "target s ! i"
  let ?c = "current ?s ! i"
  let ?e = "\<bar>target s ! i - current s ! i\<bar>"
  have f: "pointsRef ?s" "positions ?s = Some p" "targetPositions ?s = Some q"
    "target ?s = target s" "length (current ?s) = length (current s)"
    using funpow_useFrame [OF assms(1-3), of k] by simp_all
  have "current (useFrame ?s) ! i = lerp_component (target ?s ! i) (current ?s ! i)"
    using f assms(4,5,7) by (intro tick_component [of _ p q]) simp_all
  then have n: "current ((useFrame ^^ Suc k) s) ! i = lerp_component ?t ?c"
    by (simp add: f(4))
  have t: "\<bar>?t\<bar> \<le> 1024" using float32_buffers_nth(2) [OF assms(6), of i] assms(4,7) by simp
  have c: "\<bar>?c\<bar> \<le> 1024" using Suc by simp
  have b: "\<bar>lerp_component ?t ?c\<bar> \<le> 1024" using c t by (rule lerp_component_bounded)
  have d: "\<exists>m j. lerp_component ?t ?c = of_int m * pow2 j"
    using Suc by (intro lerp_component_dyadic) simp
  have "\<bar>?t - lerp_component ?t ?c\<bar> \<le> max (1 / 1000) (?e - real (Suc k) / 100000)"
  proof (cases "\<bar>?t - ?c\<bar> > 0.001")
    case False
    then have "\<bar>?t - lerp_component ?t ?c\<bar> \<le> 1 / 1000"
      using lerp_component_near [OF False] by simp
    then show ?thesis by (rule max.coboundedI1)
  next
    case True
    then have "1 / 1000 < \<bar>?t - ?c\<bar>" by simp
    moreover have "\<bar>?t - ?c\<bar> \<le> max (1 / 1000) (?e - real k / 100000)" using Suc by simp
    ultimately have "\<bar>?t - ?c\<bar> \<le> ?e - real k / 100000" by linarith
    moreover have "\<bar>?t - lerp_component ?t ?c\<bar> \<le> \<bar>?t - ?c\<bar> - 1 / 100000"
      using True c t by (rule lerp_component_far(1))
    moreover have "real (Suc k) / 100000 = real k / 100000 + 1 / 100000" by simp
    ultimately have "\<bar>?t - lerp_component ?t ?c\<bar> \<le> ?e - real (Suc k) / 100000"
      by linarith
    then show ?thesis by (rule max.coboundedI2)
  qed
  then show ?case using b d unfolding n by blast
qed

lemma converges:
  assumes "pointsRef s" and "positions s = Some p" and "targetPositions s = Some q"
    and "length (current s) = length (target s)"
    and "length (current s) \<le> PARTICLE_COUNT * 3"
    and "float32_buffers 1024 s"
  shows "\<forall>k \<ge> 204800000. \<forall>i < length (current s).
     \<bar>target s ! i - current ((useFrame ^^ k) s) ! i\<bar> < 0.001"
proof (intro allI impI)
  fix k :: nat and i
  assume k: "204800000 \<le> k" and i: "i < length (current s)"
  let ?t = "target s ! i"
  let ?c = "current ((useFrame ^^ k) s) ! i"
  let ?e = "\<bar>target s ! i - current s ! i\<bar>"
  have t: "float32 ?t \<and> \<bar>?t\<bar> \<le> 1024"
    using float32_buffers_nth(2) [OF assms(6), of i] assms(4) i by simp
  have c0: "\<bar>current s ! i\<bar> \<le> 1024" using float32_buffers_nth(1) [OF assms(6) i] by simp
  have a: "\<bar>?c\<bar> \<le> 1024 \<and> (\<exists>m j. ?c = of_int m * pow2 j) \<and>
     \<bar>?t - ?c\<bar> \<le> max (1 / 1000) (?e - real k / 100000)"
    using assms i by (rule component_after_ticks)
  have "?e \<le> 2048" using t c0 by linarith
  moreover have "204800000 \<le> real k" using k by simp
  then have "2048 \<le> real k / 100000" by simp
  ultimately have "\<bar>?t - ?c\<bar> \<le> 1 / 1000" using a by linarith
  moreover have "\<exists>m j. ?t = of_int m * pow2 j" using t by (intro float32_dyadic) simp
  then have "\<bar>?t - ?c\<bar> \<noteq> 0.001"
    using a by (intro float32_distance_not_threshold) simp_all
  ultimately show "\<bar>?t - ?c\<bar> < 0.001" by simp
qed

text \<open>
  C3, as amended. With current and target buffers of the same length (at most
  \<open>3 * PARTICLE_COUNT\<close>, the bound of the loop) that hold float32 values of magnitude at
  most 1024, every tick taken while some component is farther than 0.001 from its target
  strictly decreases the sum of the distances of all components, and after sufficiently
  many ticks every component differs from its target by less than 0.001.
\<close>

theorem morph_converges:
  assumes "pointsRef s" and "positions s = Some p" and "targetPositions s = Some q"
    and "length (current s) = length (target s)"
    and "length (current s) \<le> PARTICLE_COUNT * 3"
    and "float32_buffers 1024 s"
  shows "(\<forall>k. (\<exists>i < length (current s).
              \<bar>target s ! i - current ((useFrame ^^ k) s) ! i\<bar> > 0.001) \<longrightarrow>
            distance_sum ((useFrame ^^ Suc k) s) < distance_sum ((useFrame ^^ k) s)) \<and>
     (\<exists>N. \<forall>k \<ge> N. \<forall>i < length (current s).
        \<bar>target s ! i - current ((useFrame ^^ k) s) ! i\<bar> < 0.001)"
proof -
  have "distance_sum ((useFrame ^^ Suc k) s) < distance_sum ((useFrame ^^ k) s)"
    if far: "\<exists>i < length (current s). \<bar>target s ! i - current ((useFrame ^^ k) s) ! i\<bar> > 0.001"
    for k
  proof -
    let ?s = "(useFrame ^^ k) s"
    have f: "pointsRef ?s" "positions ?s = Some p" "targetPositions ?s = Some q"
      "target ?s = target s" "length (current ?s) = length (current s)"
      using funpow_useFrame [OF assms(1-3), of k] by simp_all
    have b: "\<bar>current ?s ! i\<bar> \<le> 1024 \<and> \<bar>target ?s ! i\<bar> \<le> 1024"
      if "i < length (current ?s)" for i
    proof -
      have i: "i < length (current s)" using that f(5) by simp
      have "\<bar>current ?s ! i\<bar> \<le> 1024"
        using component_after_ticks [OF assms i, of k] by simp
      moreover have "\<bar>target s ! i\<bar> \<le> 1024"
        using float32_buffers_nth(2) [OF assms(6), of i] assms(4) i by simp
      ultimately show ?thesis by (simp add: f(4))
    qed
    have "distance_sum (useFrame ?s) < distance_sum ?s"
      using f(1-3) _ _ b
    proof (rule distance_sum_decreases)
      show "length (current ?s) = length (target ?s)" using f assms(4) by simp
      show "length (current ?s) \<le> PARTICLE_COUNT * 3" using f assms(5) by simp
      show "\<exists>i < length (current ?s). \<bar>target ?s ! i - current ?s ! i\<bar> > 0.001"
        using far f by simp
    qed
    then show ?thesis by simp
  qed
  then show ?thesis using converges [OF assms] by blast
qed

theorem morph_converges_witness:
  "pointsRef (morph_state [0] [1]) \<and> positions (morph_state [0] [1]) = Some 0 \<and>
   targetPositions (morph_state [0] [1]) = Some 1 \<and>
   length (current (morph_state [0] [1])) = length (target (morph_state [0] [1])) \<and>
   length (current (morph_state [0] [1])) \<le> PARTICLE_COUNT * 3 \<and>
   float32_buffers 1024 (morph_state [0] [1]) \<and>
   distance_sum ((useFrame ^^ Suc 0) (morph_state [0] [1]))
     < distance_sum ((useFrame ^^ 0) (morph_state [0] [1])) \<and>
   (\<exists>N. \<forall>k \<ge> N. \<bar>1 - current ((useFrame ^^ k) (morph_state [0] [1])) ! 0\<bar> < 0.001)"
proof -
  let ?s = "morph_state [0] [1]"
  have h: "pointsRef ?s" "positions ?s = Some 0" "targetPositions ?s = Some 1"
    "length (current ?s) = length (target ?s)" "length (current ?s) \<le> PARTICLE_COUNT * 3"
    "float32_buffers 1024 ?s"
    by (simp_all add: morph_state_simps PARTICLE_COUNT_def float32_buffers_def float32_def)
  note m = morph_converges [OF h]
  have "\<exists>i < length (current ?s). \<bar>target ?s ! i - current ((useFrame ^^ 0) ?s) ! i\<bar> > 0.001"
    by (simp add: morph_state_simps)
  then have a: "distance_sum ((useFrame ^^ Suc 0) ?s) < distance_sum ((useFrame ^^ 0) ?s)"
    using m by blast
  have b: "\<exists>N. \<forall>k \<ge> N. \<bar>1 - current ((useFrame ^^ k) ?s) ! 0\<bar> < 0.001"
    using m by (simp add: morph_state_simps)
  show ?thesis using h a b by blast
qed

lemma lerp_component_1024: "lerp_component (8388617 / 8192) 1024 = 1024"
proof -
  define y :: real where "y = 1024 + 9 / 163840"
  have p: "pow2 10 = 1024" "pow2 (10 + 1) = 2048" "pow2 (10 - 23) = 1 / 8192"
    by (simp_all add: pow2_def)
  have q: "y / pow2 (10 - 23) = 8388608 + 9 / 20" unfolding p y_def by simp
  have "pow2 10 \<le> \<bar>y\<bar>" "\<bar>y\<bar> < pow2 (10 + 1)" unfolding p y_def by simp_all
  then have "Math_fround y = of_int (round_ties_even (y / pow2 (10 - 23))) * pow2 (10 - 23)"
    by (rule Math_fround_binade) simp
  moreover have "round_ties_even (y / pow2 (10 - 23)) = 8388608"
    unfolding q by (rule round_ties_even_near) simp_all
  ultimately have "Math_fround y = 1024" unfolding p by simp
  moreover have "1024 + (8388617 / 8192 - 1024) * lerpFactor = y"
    by (simp add: lerpFactor_def y_def)
  moreover have "\<bar>8388617 / 8192 - 1024\<bar> > (0.001::real)" by simp
  ultimately show ?thesis by (simp only: lerp_component_def if_True)
qed

text \<open>
  C3 as stated fails where the spacing of float32 exceeds the step. Both 1024 and
  \<open>8388617 / 8192 = 1024 + 9/8192\<close> are float32 values, 0.0011 apart; the step
  \<open>0.05 * 9/8192\<close> is less than half the spacing \<open>1/8192\<close> of float32 above 1024, so the
  store rounds the new value back to 1024: the tick leaves the buffer as it was, the sum
  of the distances does not decrease, and the distance never gets below 0.001.
\<close>

theorem morph_stalls_at_1024:
  "float32 1024 \<and> float32 (8388617 / 8192) \<and>
   current (useFrame (morph_state [1024] [8388617 / 8192])) = [1024] \<and>
   \<not> distance_sum (useFrame (morph_state [1024] [8388617 / 8192]))
       < distance_sum (morph_state [1024] [8388617 / 8192]) \<and>
   (\<forall>k. \<not> \<bar>target (morph_state [1024] [8388617 / 8192]) ! 0
            - current ((useFrame ^^ k) (morph_state [1024] [8388617 / 8192])) ! 0\<bar> < 0.001)"
proof -
  let ?s = "morph_state [1024] [8388617 / 8192]"
  have h: "pointsRef ?s" "positions ?s = Some 0" "targetPositions ?s = Some 1"
    by (simp_all add: morph_state_simps)
  have l: "lerp_buffer 0 [8388617 / 8192] [1024] = [1024]"
    by (simp add: lerp_buffer_def lerp_component_1024 PARTICLE_COUNT_def)
  have c: "current ((useFrame ^^ k) ?s) = [1024]" for k
  proof (induction k)
    case 0
    show ?case by (simp add: morph_state_simps)
  next
    case (Suc k)
    let ?t = "(useFrame ^^ k) ?s"
    have f: "pointsRef ?t" "positions ?t = Some 0" "targetPositions ?t = Some 1"
      "target ?t = target ?s"
      using funpow_useFrame [OF h, of k] by simp_all
    have "current (useFrame ?t) = lerp_buffer 0 (target ?t) (current ?t)"
      using f(1-3) by (rule useFrame_current)
    then show ?case by (simp add: f(4) Suc morph_state_simps l)
  qed
  have c1: "current (useFrame ?s) = [1024]" using c [of 1] by simp
  have t1: "target (useFrame ?s) = [8388617 / 8192]"
    using useFrame_target [OF h] by (simp add: morph_state_simps)
  have f1: "float32 1024" by (simp add: float32_def)
  have "float32 (of_int 8388617 * pow2 (- 13))" by (rule float32_exact) simp_all
  then have f2: "float32 (8388617 / 8192)" by (simp add: pow2_def)
  have d: "\<not> distance_sum (useFrame ?s) < distance_sum ?s"
    by (simp add: distance_sum_def c1 t1 morph_state_simps)
  have "\<not> \<bar>target ?s ! 0 - current ((useFrame ^^ k) ?s) ! 0\<bar> < 0.001" for k
    by (simp add: c morph_state_simps)
  then show ?thesis using f1 f2 c1 d by blast
qed

end
